theory Spec2Isabelle
  imports Complex_Main "HOL-Library.Sublist"
begin

section \<open>Configuration trees\<close>

text \<open>
  The settings handled by \<open>AdaptiveSettings\<close> are JSON-like Python values: scalars
  (\<open>None\<close>, booleans, integers, floats, strings), lists and dictionaries keyed by
  strings. A dictionary is an association list in insertion order; a Python dictionary
  never holds a key twice, which \<open>wf_val\<close> states. Floats are idealised as rationals.
\<close>

datatype scalar = SNone | SBool bool | SInt int | SFloat rat | SStr string

datatype cval = Scalar scalar | Seq "cval list" | Mapping "(string \<times> cval) list"

type_synonym dict = "(string \<times> cval) list"

fun wf_val :: "cval \<Rightarrow> bool" where
  "wf_val (Scalar s) = True"
| "wf_val (Seq items) = (\<forall>v \<in> set items. wf_val v)"
| "wf_val (Mapping kvs) = (distinct (map fst kvs) \<and> (\<forall>kv \<in> set kvs. wf_val (snd kv)))"

definition wf_dict :: "dict \<Rightarrow> bool" where
  "wf_dict d = wf_val (Mapping d)"

fun is_dict :: "cval \<Rightarrow> bool" where
  "is_dict (Mapping kvs) = True"
| "is_dict v = False"

text \<open>\<open>d[key] = v\<close>: an existing key keeps its position, a new key goes last.\<close>

fun dict_set :: "('k \<times> 'v) list \<Rightarrow> 'k \<Rightarrow> 'v \<Rightarrow> ('k \<times> 'v) list" where
  "dict_set [] key v = [(key, v)]"
| "dict_set ((k, w) # rest) key v =
     (if k = key then (k, v) # rest else (k, w) # dict_set rest key v)"

text \<open>\<open>d.update(other)\<close>: the entries of \<open>other\<close> are stored in order, by reference.\<close>

fun dict_update :: "dict \<Rightarrow> dict \<Rightarrow> dict" where
  "dict_update d [] = d"
| "dict_update d ((k, v) # rest) = dict_update (dict_set d k v) rest"

text \<open>\<open>d.get(key, default)\<close> on an optional entry.\<close>

fun get_default :: "'a option \<Rightarrow> 'a \<Rightarrow> 'a" where
  "get_default (Some v) d = v"
| "get_default None d = d"

subsection \<open>\<open>_deep_copy\<close> and \<open>_merge_settings\<close>\<close>

fun deep_copy :: "cval \<Rightarrow> cval" where
  "deep_copy (Mapping kvs) = Mapping (map (\<lambda>(key, value). (key, deep_copy value)) kvs)"
| "deep_copy (Seq items) = Seq (map deep_copy items)"
| "deep_copy (Scalar s) = Scalar s"

text \<open>\<open>_deep_copy\<close> applied to a dictionary, as a dictionary.\<close>

definition deep_copy_dict :: "dict \<Rightarrow> dict" where
  "deep_copy_dict d = map (\<lambda>(key, value). (key, deep_copy value)) d"

text \<open>
  \<open>merge_settings base update\<close> is \<open>_merge_settings\<close>; \<open>merge_loop result update\<close> is its
  \<open>for key, value in update.items()\<close> loop, started on the deep copy of \<open>base\<close>.
\<close>

function merge_settings :: "dict \<Rightarrow> dict \<Rightarrow> dict"
  and merge_loop :: "dict \<Rightarrow> dict \<Rightarrow> dict"
where
  "merge_settings base update = merge_loop (deep_copy_dict base) update"
| "merge_loop result [] = result"
| "merge_loop result ((key, value) # rest) =
     merge_loop
       (case (map_of result key, value) of
          (Some (Mapping r), Mapping u) \<Rightarrow> dict_set result key (Mapping (merge_settings r u))
        | _ \<Rightarrow> dict_set result key (deep_copy value))
       rest"
  by pat_completeness auto
termination
  by (relation "measure (\<lambda>x. case x of
          Inl (b, u) \<Rightarrow> 2 * size_list (size_prod (\<lambda>_. 0) size) u + 1
        | Inr (r, u) \<Rightarrow> 2 * size_list (size_prod (\<lambda>_. 0) size) u)") auto

text \<open>The fold of an ordered list of layers over a starting tree.\<close>

definition merge_layers :: "dict \<Rightarrow> dict list \<Rightarrow> dict" where
  "merge_layers start layers = foldl merge_settings start layers"

text \<open>What one merge does to the entry of a single key.\<close>

fun merge_at :: "cval option \<Rightarrow> cval option \<Rightarrow> cval option" where
  "merge_at x None = x"
| "merge_at (Some (Mapping r)) (Some (Mapping u)) = Some (Mapping (merge_settings r u))"
| "merge_at x (Some v) = Some v"

fun mappings_of :: "cval option list \<Rightarrow> dict list" where
  "mappings_of [] = []"
| "mappings_of (Some (Mapping m) # xs) = m # mappings_of xs"
| "mappings_of (x # xs) = mappings_of xs"

definition layers_size :: "dict list \<Rightarrow> nat" where
  "layers_size layers = sum_list (map (\<lambda>l. size (Mapping l)) layers)"

section \<open>The signal snapshot\<close>

text \<open>
  The two dictionaries handed to the generators, with the shape the collectors give them.
  Every section and every field may be absent (\<open>None\<close>); the code reads them with
  \<open>.get(key, default)\<close>. Percentages are idealised as rationals.
\<close>

record memory_info =
  mem_percent :: "rat option"
  mem_total :: "int option"

record cpu_info =
  cpu_percent :: "rat option"
  cpu_count :: "int option"

text \<open>\<open>other_metrics\<close> says whether \<open>system_metrics\<close> holds further keys (swap, disk, ...).\<close>

record metrics =
  memory :: "memory_info option"
  cpu :: "cpu_info option"
  other_metrics :: bool

record issue =
  issue_type :: string
  severity :: string

record performance_data =
  system_metrics :: "metrics option"
  performance_issues :: "issue list option"
  perf_error_patterns :: "cval list option"

record project_info =
  project_type :: "string option"
  languages :: "string list option"
  frameworks :: "string list option"
  total_files :: "int option"
  file_counts :: "(string \<times> int) list option"

record usage_info =
  sessions_count :: "int option"
  error_patterns :: "cval list option"

record vscode_info =
  cline_settings :: "dict option"

record rules_info =
  rules_exists :: "bool option"
  content :: "string option"

record config_data =
  project_structure :: "project_info option"
  vscode_settings :: "vscode_info option"
  usage_patterns :: "usage_info option"
  current_rules :: "rules_info option"

text \<open>The empty dictionary \<open>{}\<close> at each of these types.\<close>

definition empty_memory :: memory_info where
  "empty_memory = \<lparr>mem_percent = None, mem_total = None\<rparr>"

definition empty_cpu :: cpu_info where
  "empty_cpu = \<lparr>cpu_percent = None, cpu_count = None\<rparr>"

definition empty_metrics :: metrics where
  "empty_metrics = \<lparr>memory = None, cpu = None, other_metrics = False\<rparr>"

definition empty_project :: project_info where
  "empty_project = \<lparr>project_type = None, languages = None, frameworks = None,
     total_files = None, file_counts = None\<rparr>"

definition empty_usage :: usage_info where
  "empty_usage = \<lparr>sessions_count = None, error_patterns = None\<rparr>"

definition empty_vscode :: vscode_info where
  "empty_vscode = \<lparr>cline_settings = None\<rparr>"

definition empty_rules :: rules_info where
  "empty_rules = \<lparr>rules_exists = None, content = None\<rparr>"

definition empty_config :: config_data where
  "empty_config = \<lparr>project_structure = None, vscode_settings = None,
     usage_patterns = None, current_rules = None\<rparr>"

definition empty_performance :: performance_data where
  "empty_performance = \<lparr>system_metrics = None, performance_issues = None,
     perf_error_patterns = None\<rparr>"

section \<open>Python values: errors, truth, arithmetic\<close>

datatype py_error = KeyError string | TypeError | AttributeError

abbreviation VBool :: "bool \<Rightarrow> cval" where "VBool b \<equiv> Scalar (SBool b)"
abbreviation VInt :: "int \<Rightarrow> cval" where "VInt n \<equiv> Scalar (SInt n)"
abbreviation VFloat :: "rat \<Rightarrow> cval" where "VFloat r \<equiv> Scalar (SFloat r)"
abbreviation VStr :: "string \<Rightarrow> cval" where "VStr s \<equiv> Scalar (SStr s)"

text \<open>The truth value of an object in a condition.\<close>

fun truthy :: "cval \<Rightarrow> bool" where
  "truthy (Scalar SNone) = False"
| "truthy (Scalar (SBool b)) = b"
| "truthy (Scalar (SInt n)) = (n \<noteq> 0)"
| "truthy (Scalar (SFloat r)) = (r \<noteq> 0)"
| "truthy (Scalar (SStr s)) = (s \<noteq> [])"
| "truthy (Seq items) = (items \<noteq> [])"
| "truthy (Mapping kvs) = (kvs \<noteq> [])"

text \<open>\<open>obj.get(key, default)\<close> on an arbitrary value: only a dictionary has \<open>get\<close>.\<close>

fun py_get :: "cval \<Rightarrow> string \<Rightarrow> cval \<Rightarrow> py_error + cval" where
  "py_get (Mapping kvs) key dflt = Inr (get_default (map_of kvs key) dflt)"
| "py_get v key dflt = Inl AttributeError"

text \<open>\<open>value + n\<close> for an integer literal \<open>n\<close>.\<close>

fun py_add_int :: "cval \<Rightarrow> int \<Rightarrow> py_error + cval" where
  "py_add_int (Scalar (SInt m)) n = Inr (VInt (m + n))"
| "py_add_int (Scalar (SBool b)) n = Inr (VInt ((if b then 1 else 0) + n))"
| "py_add_int (Scalar (SFloat r)) n = Inr (VFloat (r + of_int n))"
| "py_add_int v n = Inl TypeError"

section \<open>\<open>AdaptiveSettings\<close>\<close>

subsection \<open>The tables set up by \<open>__init__\<close>\<close>

definition default_performance :: dict where
  "default_performance =
     [(''enableCaching'', VBool True),
      (''maxCacheSize'', VInt 100),
      (''parallelProcessing'', VBool False),
      (''memoryOptimization'', VBool False)]"

definition default_settings :: dict where
  "default_settings =
     [(''cline_settings'', Mapping
        [(''autoApprove'', VBool False),
         (''alwaysAllowReadOnly'', VBool True),
         (''alwaysAllowWriteOnly'', VBool False),
         (''requestLimit'', VInt 25),
         (''contextWindow'', VInt 200000),
         (''maxResponseTokens'', VInt 8192),
         (''temperature'', VFloat (1 / 10)),
         (''debugMode'', VBool False),
         (''experimentalFeatures'', VBool False),
         (''customInstructions'', VStr ''''),
         (''preferredLanguage'', VStr ''ru''),
         (''codeStyle'', Mapping
            [(''indentation'', VInt 4),
             (''quotes'', VStr ''double''),
             (''semicolons'', VBool True),
             (''trailingCommas'', VBool True)]),
         (''performance'', Mapping default_performance),
         (''security'', Mapping
            [(''restrictFileAccess'', VBool True),
             (''sanitizeInputs'', VBool True),
             (''logSecurityEvents'', VBool True)])])]"

definition python_settings :: dict where
  "python_settings =
     [(''codeStyle'', Mapping
         [(''indentation'', VInt 4), (''quotes'', VStr ''double''), (''lineLength'', VInt 88)]),
      (''linting'', Mapping
         [(''enableFlake8'', VBool True), (''enableBlack'', VBool True),
          (''enableMypy'', VBool True)]),
      (''testing'', Mapping
         [(''framework'', VStr ''pytest''), (''coverage'', VBool True),
          (''autoDiscovery'', VBool True)])]"

definition javascript_settings :: dict where
  "javascript_settings =
     [(''codeStyle'', Mapping
         [(''indentation'', VInt 2), (''quotes'', VStr ''single''),
          (''semicolons'', VBool False), (''trailingCommas'', VBool True)]),
      (''linting'', Mapping
         [(''enableESLint'', VBool True), (''enablePrettier'', VBool True)]),
      (''build'', Mapping
         [(''enableSourceMaps'', VBool True), (''minification'', VBool True)])]"

definition typescript_settings :: dict where
  "typescript_settings =
     [(''codeStyle'', Mapping
         [(''indentation'', VInt 2), (''quotes'', VStr ''single''),
          (''semicolons'', VBool False), (''strictMode'', VBool True)]),
      (''typeChecking'', Mapping
         [(''strict'', VBool True), (''noImplicitAny'', VBool True),
          (''strictNullChecks'', VBool True)])]"

definition web_settings :: dict where
  "web_settings =
     [(''features'', Mapping
         [(''autoReload'', VBool True), (''livePreview'', VBool True),
          (''responsiveDesign'', VBool True)]),
      (''optimization'', Mapping
         [(''imageOptimization'', VBool True), (''cssMinification'', VBool True),
          (''jsMinification'', VBool True)])]"

definition project_specific_settings :: "(string \<times> dict) list" where
  "project_specific_settings =
     [(''python'', python_settings),
      (''javascript'', javascript_settings),
      (''typescript'', typescript_settings),
      (''web'', web_settings)]"

text \<open>The four entries of \<open>performance_settings\<close>.\<close>

definition high_memory :: dict where
  "high_memory =
     [(''contextWindow'', VInt 300000),
      (''maxResponseTokens'', VInt 12288),
      (''enableCaching'', VBool True),
      (''maxCacheSize'', VInt 200),
      (''parallelProcessing'', VBool True)]"

definition low_memory :: dict where
  "low_memory =
     [(''contextWindow'', VInt 100000),
      (''maxResponseTokens'', VInt 4096),
      (''enableCaching'', VBool False),
      (''maxCacheSize'', VInt 50),
      (''parallelProcessing'', VBool False),
      (''memoryOptimization'', VBool True)]"

definition high_cpu :: dict where
  "high_cpu =
     [(''parallelProcessing'', VBool True),
      (''backgroundProcessing'', VBool True),
      (''optimizeAlgorithms'', VBool True)]"

definition low_cpu :: dict where
  "low_cpu =
     [(''parallelProcessing'', VBool False),
      (''backgroundProcessing'', VBool False),
      (''simpleAlgorithms'', VBool True)]"

subsection \<open>The layer selectors\<close>

definition is_web_project :: "project_info \<Rightarrow> bool" where
  "is_web_project ps =
     (let langs = get_default (languages ps) [];
          fws = get_default (frameworks ps) [];
          web_indicators = [''javascript'', ''typescript'', ''html'', ''css''];
          web_frameworks = [''nodejs'', ''react'', ''vue'', ''angular'']
      in list_ex (\<lambda>lang. lang \<in> set web_indicators) langs \<or>
         list_ex (\<lambda>fw. fw \<in> set web_frameworks) fws)"

definition adapt_for_project_type :: "config_data \<Rightarrow> dict" where
  "adapt_for_project_type cd =
     (let ps = get_default (project_structure cd) empty_project;
          ptype = get_default (project_type ps) ''unknown'';
          langs = get_default (languages ps) [];
          s0 = [];
          s1 = (case langs of
                  [] \<Rightarrow> s0
                | primary_language # others \<Rightarrow>
                    (case map_of project_specific_settings primary_language of
                       Some lang_settings \<Rightarrow> dict_update s0 lang_settings
                     | None \<Rightarrow> s0));
          s2 = (case map_of project_specific_settings ptype of
                  Some type_settings \<Rightarrow> dict_update s1 type_settings
                | None \<Rightarrow> s1);
          s3 = (if is_web_project ps
                then dict_update s2 (get_default (map_of project_specific_settings ''web'') [])
                else s2)
      in [(''cline_settings'', Mapping s3)])"

definition is_empty_metrics :: "metrics \<Rightarrow> bool" where
  "is_empty_metrics sm = (memory sm = None \<and> cpu sm = None \<and> \<not> other_metrics sm)"

text \<open>One round of the loop over \<open>performance_issues\<close>.\<close>

definition issue_step :: "dict \<Rightarrow> issue \<Rightarrow> dict" where
  "issue_step s i =
     (if issue_type i = ''memory'' \<and> severity i = ''high''
      then dict_set (dict_set s ''memoryOptimization'' (VBool True)) ''enableCaching'' (VBool False)
      else if issue_type i = ''cpu'' \<and> severity i = ''high''
      then dict_set (dict_set s ''parallelProcessing'' (VBool False)) ''maxResponseTokens'' (VInt 4096)
      else s)"

text \<open>
  \<open>_adapt_for_performance\<close>, block by block: the memory tier, the CPU tier, then the loop
  over the issues, each updating the settings built so far. The quotient of the byte
  count by \<open>1024 ** 3\<close> is taken exactly; for an integer byte count the float of the
  source compares with 4 and with 16 as the exact quotient does.
\<close>

definition memory_tier :: "memory_info \<Rightarrow> dict \<Rightarrow> dict" where
  "memory_tier minfo s =
     (let memory_percent = get_default (mem_percent minfo) 0;
          memory_total_gb = (of_int (get_default (mem_total minfo) 0) :: rat) / 1024 ^ 3
      in if memory_percent > 80 \<or> memory_total_gb < 4
         then dict_update s low_memory
         else if memory_total_gb > 16
         then dict_update s high_memory
         else s)"

definition cpu_tier :: "cpu_info \<Rightarrow> dict \<Rightarrow> dict" where
  "cpu_tier cinfo s =
     (let cpu_pct = get_default (cpu_percent cinfo) 0;
          cpu_cnt = get_default (cpu_count cinfo) 1
      in if cpu_pct > 80 \<or> cpu_cnt < 4
         then dict_update s low_cpu
         else if cpu_cnt > 8
         then dict_update s high_cpu
         else s)"

definition adapt_for_performance :: "performance_data \<Rightarrow> dict" where
  "adapt_for_performance pd =
     (let sm = get_default (system_metrics pd) empty_metrics;
          issues = get_default (performance_issues pd) []
      in if is_empty_metrics sm then [(''cline_settings'', Mapping [])]
         else
           let minfo = get_default (memory sm) empty_memory;
               cinfo = get_default (cpu sm) empty_cpu;
               s1 = memory_tier minfo [];
               s2 = cpu_tier cinfo s1;
               s3 = foldl issue_step s2 issues
           in [(''cline_settings'', Mapping s3)])"

definition adapt_for_project_scale :: "config_data \<Rightarrow> py_error + dict" where
  "adapt_for_project_scale cd =
     (let ps = get_default (project_structure cd) empty_project;
          files = get_default (total_files ps) 0;
          languages_count = length (get_default (languages ps) []);
          s1 = (if files > 100
                then dict_update []
                       [(''requestLimit'', VInt 50), (''contextWindow'', VInt 250000),
                        (''enableCaching'', VBool True), (''maxCacheSize'', VInt 150)]
                else if files > 50
                then dict_update []
                       [(''requestLimit'', VInt 35), (''contextWindow'', VInt 200000),
                        (''enableCaching'', VBool True)]
                else dict_update []
                       [(''requestLimit'', VInt 20), (''contextWindow'', VInt 150000)])
      in if languages_count > 2
         then (case py_add_int (get_default (map_of s1 ''contextWindow'') (VInt 200000)) 50000 of
                 Inl e \<Rightarrow> Inl e
               | Inr window \<Rightarrow>
                   Inr [(''cline_settings'', Mapping
                     (dict_update s1
                        [(''contextWindow'', window), (''maxResponseTokens'', VInt 10240)]))])
         else Inr [(''cline_settings'', Mapping s1)])"

definition adapt_for_usage_patterns :: "config_data \<Rightarrow> performance_data \<Rightarrow> dict" where
  "adapt_for_usage_patterns cd pd =
     (let up = get_default (usage_patterns cd) empty_usage;
          sessions = get_default (sessions_count up) 0;
          s1 = (if sessions > 100
                then dict_update []
                       [(''autoApprove'', VBool True), (''experimentalFeatures'', VBool True),
                        (''debugMode'', VBool False)]
                else if sessions < 10
                then dict_update []
                       [(''autoApprove'', VBool False), (''experimentalFeatures'', VBool False),
                        (''debugMode'', VBool True)]
                else []);
          errs = get_default (error_patterns up) [];
          s2 = (if length errs > 10
                then dict_update s1
                       [(''temperature'', VFloat (1 / 20)),
                        (''security'', Mapping
                           [(''restrictFileAccess'', VBool True), (''sanitizeInputs'', VBool True)])]
                else s1)
      in [(''cline_settings'', Mapping s2)])"

definition preserve_keys :: "string list" where
  "preserve_keys = [''customInstructions'', ''preferredLanguage'', ''autoApprove'']"

definition preserve_user_settings :: "config_data \<Rightarrow> dict" where
  "preserve_user_settings cd =
     (let vs = get_default (vscode_settings cd) empty_vscode;
          current_cline_settings = get_default (cline_settings vs) [];
          kept = foldl (\<lambda>s key. case map_of current_cline_settings key of
                                   Some v \<Rightarrow> dict_set s key v
                                 | None \<Rightarrow> s) [] preserve_keys
      in [(''cline_settings'', Mapping kept)])"

definition generate_vscode_config :: "dict \<Rightarrow> config_data \<Rightarrow> py_error + dict" where
  "generate_vscode_config adaptive_config cd =
     (let ps = get_default (project_structure cd) empty_project;
          langs = get_default (languages ps) [];
          v1 = (if ''python'' \<in> set langs
                then dict_update []
                       [(''python.defaultInterpreterPath'', VStr ''./venv/bin/python''),
                        (''python.linting.enabled'', VBool True),
                        (''python.linting.pylintEnabled'', VBool True),
                        (''python.formatting.provider'', VStr ''black''),
                        (''python.testing.pytestEnabled'', VBool True)]
                else []);
          v2 = (if ''javascript'' \<in> set langs \<or> ''typescript'' \<in> set langs
                then dict_update v1
                       [(''eslint.enable'', VBool True),
                        (''prettier.enable'', VBool True),
                        (''javascript.preferences.includePackageJsonAutoImports'', VStr ''auto''),
                        (''typescript.preferences.includePackageJsonAutoImports'', VStr ''auto'')]
                else v1);
          cs = get_default (map_of adaptive_config ''cline_settings'') (Mapping [])
      in case py_get cs ''codeStyle'' (Mapping []) of
           Inl e \<Rightarrow> Inl e
         | Inr code_style \<Rightarrow>
           (case (if truthy code_style
                  then (case py_get code_style ''indentation'' (VInt 4) of
                          Inl e \<Rightarrow> Inl e
                        | Inr indentation \<Rightarrow>
                            Inr (dict_update v2
                              [(''editor.tabSize'', indentation),
                               (''editor.insertSpaces'', VBool True),
                               (''editor.detectIndentation'', VBool False)]))
                  else Inr v2) of
              Inl e \<Rightarrow> Inl e
            | Inr v3 \<Rightarrow>
              (case py_get cs ''performance'' (Mapping []) of
                 Inl e \<Rightarrow> Inl e
               | Inr performance \<Rightarrow>
                 (case py_get performance ''memoryOptimization'' (Scalar SNone) of
                    Inl e \<Rightarrow> Inl e
                  | Inr memopt \<Rightarrow>
                      Inr (if truthy memopt
                           then dict_update v3
                                  [(''typescript.disableAutomaticTypeAcquisition'', VBool True),
                                   (''search.followSymlinks'', VBool False),
                                   (''files.watcherExclude'', Mapping
                                      [(''**/.git/objects/**'', VBool True),
                                       (''**/.git/subtree-cache/**'', VBool True),
                                       (''**/node_modules/**'', VBool True),
                                       (''**/.hg/store/**'', VBool True)])]
                           else v3)))))"

definition generate_adaptive_config :: "config_data \<Rightarrow> performance_data \<Rightarrow> py_error + dict" where
  "generate_adaptive_config cd pd =
     (let c0 = deep_copy_dict default_settings;
          c1 = merge_settings c0 (adapt_for_project_type cd);
          c2 = merge_settings c1 (adapt_for_performance pd)
      in case adapt_for_project_scale cd of
           Inl e \<Rightarrow> Inl e
         | Inr scale_settings \<Rightarrow>
           (let c3 = merge_settings c2 scale_settings;
                c4 = merge_settings c3 (adapt_for_usage_patterns cd pd);
                c5 = merge_settings c4 (preserve_user_settings cd)
            in case generate_vscode_config c5 cd of
                 Inl e \<Rightarrow> Inl e
               | Inr vscode_config \<Rightarrow> Inr (dict_update c5 vscode_config)))"

text \<open>Reading a nested key of a tree, for stating results.\<close>

definition lookup2 :: "dict \<Rightarrow> string \<Rightarrow> string \<Rightarrow> cval option" where
  "lookup2 d k1 k2 = (case map_of d k1 of Some (Mapping m) \<Rightarrow> map_of m k2 | _ \<Rightarrow> None)"

subsection \<open>Reading results, and the snapshots of the examples\<close>

text \<open>A setting of the final \<open>cline_settings\<close>; \<open>None\<close> too when the generator raised.\<close>

definition final_setting :: "py_error + dict \<Rightarrow> string \<Rightarrow> cval option" where
  "final_setting r key =
     (case r of Inl e \<Rightarrow> None | Inr tree \<Rightarrow> lookup2 tree ''cline_settings'' key)"

text \<open>A top-level key of the final tree.\<close>

definition final_key :: "py_error + dict \<Rightarrow> string \<Rightarrow> cval option" where
  "final_key r key = (case r of Inl e \<Rightarrow> None | Inr tree \<Rightarrow> map_of tree key)"

text \<open>The first of two optional values that is defined.\<close>

fun or_else :: "'a option \<Rightarrow> 'a option \<Rightarrow> 'a option" where
  "or_else (Some v) y = Some v"
| "or_else None y = y"

text \<open>What the catalogue entry of a language or project type holds at a key, if anything.\<close>

definition catalogue_entry :: "string \<Rightarrow> string \<Rightarrow> cval option" where
  "catalogue_entry name key =
     (case map_of project_specific_settings name of
        Some entry \<Rightarrow> map_of entry key
      | None \<Rightarrow> None)"

text \<open>
  Entries that leave the nested \<open>performance\<close> mapping alone and keep \<open>codeStyle\<close> a
  mapping: what every computed layer writes under \<open>cline_settings\<close>.
\<close>

definition quiet_entries :: "dict \<Rightarrow> bool" where
  "quiet_entries s =
     list_all (\<lambda>(k, v). k \<noteq> ''performance'' \<and> (k \<noteq> ''codeStyle'' \<or> is_dict v)) s"

text \<open>
  A tree that is \<open>{'cline_settings': {...}}\<close> with the default \<open>performance\<close> mapping and a
  mapping at \<open>codeStyle\<close>.
\<close>

definition keeps_defaults :: "dict \<Rightarrow> bool" where
  "keeps_defaults t =
     (case t of
        [(k, Mapping cs)] \<Rightarrow>
          k = ''cline_settings'' \<and>
          map_of cs ''performance'' = Some (Mapping default_performance) \<and>
          (case map_of cs ''codeStyle'' of Some v \<Rightarrow> is_dict v | None \<Rightarrow> False)
      | _ \<Rightarrow> False)"

text \<open>The keys that \<open>_generate_vscode_config\<close> writes while memory optimisation is off.\<close>

definition editor_keys :: "string list" where
  "editor_keys =
     [''python.defaultInterpreterPath'', ''python.linting.enabled'',
      ''python.linting.pylintEnabled'', ''python.formatting.provider'',
      ''python.testing.pytestEnabled'', ''eslint.enable'', ''prettier.enable'',
      ''javascript.preferences.includePackageJsonAutoImports'',
      ''typescript.preferences.includePackageJsonAutoImports'',
      ''editor.tabSize'', ''editor.insertSpaces'', ''editor.detectIndentation'']"

text \<open>Memory at 85 percent, nothing else in the snapshot.\<close>

definition memory_85 :: performance_data where
  "memory_85 =
     \<lparr>system_metrics = Some
        \<lparr>memory = Some \<lparr>mem_percent = Some 85, mem_total = None\<rparr>,
         cpu = None, other_metrics = False\<rparr>,
      performance_issues = None, perf_error_patterns = None\<rparr>"

text \<open>The same with every other section present and at its default.\<close>

definition memory_85_defaults :: performance_data where
  "memory_85_defaults =
     \<lparr>system_metrics = Some
        \<lparr>memory = Some \<lparr>mem_percent = Some 85, mem_total = None\<rparr>,
         cpu = None, other_metrics = False\<rparr>,
      performance_issues = Some [], perf_error_patterns = Some []\<rparr>"

definition default_config :: config_data where
  "default_config =
     \<lparr>project_structure = Some
        \<lparr>project_type = Some ''unknown'', languages = Some [], frameworks = Some [],
         total_files = Some 0, file_counts = Some []\<rparr>,
      vscode_settings = Some \<lparr>cline_settings = Some []\<rparr>,
      usage_patterns = Some \<lparr>sessions_count = Some 0, error_patterns = Some []\<rparr>,
      current_rules = Some \<lparr>rules_exists = Some False, content = None\<rparr>\<rparr>"

text \<open>Memory at 85 percent on a machine with 32 GiB.\<close>

definition memory_85_of_32gib :: performance_data where
  "memory_85_of_32gib =
     \<lparr>system_metrics = Some
        \<lparr>memory = Some \<lparr>mem_percent = Some 85, mem_total = Some (32 * 2 ^ 30)\<rparr>,
         cpu = None, other_metrics = False\<rparr>,
      performance_issues = None, perf_error_patterns = None\<rparr>"

text \<open>Memory at 40 percent on a machine with 32 GiB and 16 cores.\<close>

definition memory_40_of_32gib :: performance_data where
  "memory_40_of_32gib =
     \<lparr>system_metrics = Some
        \<lparr>memory = Some \<lparr>mem_percent = Some 40, mem_total = Some (32 * 2 ^ 30)\<rparr>,
         cpu = Some \<lparr>cpu_percent = Some 10, cpu_count = Some 16\<rparr>, other_metrics = True\<rparr>,
      performance_issues = Some [], perf_error_patterns = None\<rparr>"

text \<open>A project whose first language has no catalogue entry and whose second has one.\<close>

definition go_then_python :: config_data where
  "go_then_python =
     \<lparr>project_structure = Some
        \<lparr>project_type = Some ''unknown'', languages = Some [''go'', ''python''],
         frameworks = Some [], total_files = Some 10, file_counts = None\<rparr>,
      vscode_settings = None, usage_patterns = None, current_rules = None\<rparr>"

text \<open>A JavaScript project whose user had set three preserved keys and \<open>performance\<close>.\<close>

definition busy_config :: config_data where
  "busy_config =
     \<lparr>project_structure = Some
        \<lparr>project_type = Some ''web'', languages = Some [''javascript'', ''python'', ''rust''],
         frameworks = Some [''react''], total_files = Some 120, file_counts = None\<rparr>,
      vscode_settings = Some \<lparr>cline_settings = Some
        [(''autoApprove'', VBool True),
         (''performance'', Mapping [(''memoryOptimization'', VBool True)]),
         (''customInstructions'', VStr ''be brief'')]\<rparr>,
      usage_patterns = Some \<lparr>sessions_count = Some 150,
        error_patterns = Some (replicate 11 (VStr ''err''))\<rparr>,
      current_rules = None\<rparr>"

text \<open>High memory use with a high-severity memory issue and a high-severity CPU issue.\<close>

definition busy_performance :: performance_data where
  "busy_performance =
     \<lparr>system_metrics = Some
        \<lparr>memory = Some \<lparr>mem_percent = Some 95, mem_total = Some (2 * 2 ^ 30)\<rparr>,
         cpu = Some \<lparr>cpu_percent = Some 99, cpu_count = Some 2\<rparr>, other_metrics = True\<rparr>,
      performance_issues = Some
        [\<lparr>issue_type = ''memory'', severity = ''high''\<rparr>,
         \<lparr>issue_type = ''cpu'', severity = ''high''\<rparr>],
      perf_error_patterns = None\<rparr>"

definition python_then_go :: config_data where
  "python_then_go =
     \<lparr>project_structure = Some
        \<lparr>project_type = Some ''unknown'', languages = Some [''python'', ''go''],
         frameworks = Some [], total_files = Some 10, file_counts = None\<rparr>,
      vscode_settings = None, usage_patterns = None, current_rules = None\<rparr>"

text \<open>Small trees for the merge.\<close>

definition tree_a :: dict where
  "tree_a =
     [(''codeStyle'', Mapping [(''indentation'', VInt 4), (''quotes'', VStr ''double'')]),
      (''requestLimit'', VInt 25),
      (''tags'', Seq [VStr ''x'', VStr ''y'']),
      (''security'', VBool True)]"

definition tree_b :: dict where
  "tree_b =
     [(''codeStyle'', Mapping [(''quotes'', VStr ''single''), (''lineLength'', VInt 88)]),
      (''tags'', Seq [VStr ''z'']),
      (''security'', Mapping [(''sanitizeInputs'', VBool True)]),
      (''debugMode'', VBool True)]"

definition tree_c :: dict where
  "tree_c =
     [(''codeStyle'', VStr ''none''),
      (''security'', Mapping [(''logSecurityEvents'', VBool False)])]"

section \<open>\<open>RulesGenerator\<close>\<close>

text \<open>
  Rule texts are Python strings, here their UTF-8 bytes. The string methods
  \<open>str.lower\<close> and \<open>str.strip\<close> follow the Unicode tables of the interpreter; the
  functions below take them as the parameters \<open>lower\<close> and \<open>strip\<close>, and every result
  holds for whatever they are. The catalogues that \<open>__init__\<close> stores in the object are
  the fields of \<open>self\<close>; the formatted time of the run is the parameter \<open>now\<close>.
\<close>

record rules_generator =
  general_rules :: "string list"
  security_rules :: "string list"
  performance_rules :: "string list"
  testing_rules :: "string list"
  documentation_rules :: "string list"
  language_specific_rules :: "(string \<times> string list) list"
  framework_rules :: "(string \<times> string list) list"

subsection \<open>String operations\<close>

text \<open>\<open>s.startswith(p)\<close>.\<close>

fun starts_with :: "string \<Rightarrow> string \<Rightarrow> bool" where
  "starts_with s [] = True"
| "starts_with [] (p # ps) = False"
| "starts_with (c # cs) (p # ps) = (c = p \<and> starts_with cs ps)"

text \<open>\<open>kw in s\<close>, for strings.\<close>

fun contains :: "string \<Rightarrow> string \<Rightarrow> bool" where
  "contains [] kw = (kw = [])"
| "contains (c # cs) kw = (starts_with (c # cs) kw \<or> contains cs kw)"

text \<open>\<open>s.split(sep)\<close> for a separator of one character.\<close>

fun split_on :: "char \<Rightarrow> string \<Rightarrow> string list" where
  "split_on sep [] = [[]]"
| "split_on sep (c # cs) =
     (if c = sep then [] # split_on sep cs
      else (case split_on sep cs of
              w # ws \<Rightarrow> (c # w) # ws
            | [] \<Rightarrow> [[c]]))"

text \<open>\<open>sep.join(parts)\<close>.\<close>

fun join :: "string \<Rightarrow> string list \<Rightarrow> string" where
  "join sep [] = []"
| "join sep [x] = x"
| "join sep (x # y # ys) = x @ sep @ join sep (y # ys)"

text \<open>
  What \<open>str.lower\<close> and \<open>str.strip\<close> do on ASCII text, for running the functions on
  examples.
\<close>

definition ascii_lower :: "string \<Rightarrow> string" where
  "ascii_lower s =
     map (\<lambda>c. let n = (of_char c :: nat)
               in if 65 \<le> n \<and> n \<le> 90 then char_of (n + 32) else c) s"

definition ascii_space :: "char \<Rightarrow> bool" where
  "ascii_space c = (c \<in> set [CHR '' '', CHR 0x09, CHR 0x0A, CHR 0x0B, CHR 0x0C, CHR 0x0D,
                              CHR 0x1C, CHR 0x1D, CHR 0x1E, CHR 0x1F])"

definition ascii_strip :: "string \<Rightarrow> string" where
  "ascii_strip s = rev (dropWhile ascii_space (rev (dropWhile ascii_space s)))"

subsection \<open>The literals of the source\<close>

text \<open>The rule added when the project has no tests, as UTF-8 bytes.\<close>

definition rule_create_tests :: string where
  "rule_create_tests =
     [CHR 0xD0, CHR 0xA1, CHR 0xD0, CHR 0xBE, CHR 0xD0, CHR 0xB7, CHR 0xD0, CHR 0xB4,
       CHR 0xD0, CHR 0xB0, CHR 0xD0, CHR 0xB2, CHR 0xD0, CHR 0xB0, CHR 0xD0, CHR 0xB9] @
       '' '' @ [CHR 0xD1, CHR 0x82, CHR 0xD0, CHR 0xB5, CHR 0xD1, CHR 0x81, CHR 0xD1,
       CHR 0x82, CHR 0xD1, CHR 0x8B] @ '' '' @ [CHR 0xD0, CHR 0xB4, CHR 0xD0, CHR 0xBB,
       CHR 0xD1, CHR 0x8F] @ '' '' @ [CHR 0xD0, CHR 0xBA, CHR 0xD1, CHR 0x80, CHR 0xD0,
       CHR 0xB8, CHR 0xD1, CHR 0x82, CHR 0xD0, CHR 0xB8, CHR 0xD1, CHR 0x87, CHR 0xD0,
       CHR 0xB5, CHR 0xD1, CHR 0x81, CHR 0xD0, CHR 0xBA, CHR 0xD0, CHR 0xB8] @ '' '' @
       [CHR 0xD0, CHR 0xB2, CHR 0xD0, CHR 0xB0, CHR 0xD0, CHR 0xB6, CHR 0xD0, CHR 0xBD,
       CHR 0xD0, CHR 0xBE, CHR 0xD0, CHR 0xB3, CHR 0xD0, CHR 0xBE] @ '' '' @ [CHR 0xD1,
       CHR 0x84, CHR 0xD1, CHR 0x83, CHR 0xD0, CHR 0xBD, CHR 0xD0, CHR 0xBA, CHR 0xD1,
       CHR 0x86, CHR 0xD0, CHR 0xB8, CHR 0xD0, CHR 0xBE, CHR 0xD0, CHR 0xBD, CHR 0xD0,
       CHR 0xB0, CHR 0xD0, CHR 0xBB, CHR 0xD0, CHR 0xB0]"

text \<open>The first rule for a memory issue, as UTF-8 bytes.\<close>

definition rule_memory_1 :: string where
  "rule_memory_1 =
     [CHR 0xD0, CHR 0x9E, CHR 0xD1, CHR 0x81, CHR 0xD0, CHR 0xB2, CHR 0xD0, CHR 0xBE,
       CHR 0xD0, CHR 0xB1, CHR 0xD0, CHR 0xBE, CHR 0xD0, CHR 0xB6, CHR 0xD0, CHR 0xB4,
       CHR 0xD0, CHR 0xB0, CHR 0xD0, CHR 0xB9] @ '' '' @ [CHR 0xD0, CHR 0xBD, CHR 0xD0,
       CHR 0xB5, CHR 0xD0, CHR 0xB8, CHR 0xD1, CHR 0x81, CHR 0xD0, CHR 0xBF, CHR 0xD0,
       CHR 0xBE, CHR 0xD0, CHR 0xBB, CHR 0xD1, CHR 0x8C, CHR 0xD0, CHR 0xB7, CHR 0xD1,
       CHR 0x83, CHR 0xD0, CHR 0xB5, CHR 0xD0, CHR 0xBC, CHR 0xD1, CHR 0x8B, CHR 0xD0,
       CHR 0xB5] @ '' '' @ [CHR 0xD1, CHR 0x80, CHR 0xD0, CHR 0xB5, CHR 0xD1, CHR 0x81,
       CHR 0xD1, CHR 0x83, CHR 0xD1, CHR 0x80, CHR 0xD1, CHR 0x81, CHR 0xD1, CHR 0x8B] @
       '' '' @ [CHR 0xD0, CHR 0xB8] @ '' '' @ [CHR 0xD0, CHR 0xB7, CHR 0xD0, CHR 0xB0,
       CHR 0xD0, CHR 0xBA, CHR 0xD1, CHR 0x80, CHR 0xD1, CHR 0x8B, CHR 0xD0, CHR 0xB2,
       CHR 0xD0, CHR 0xB0, CHR 0xD0, CHR 0xB9] @ '' '' @ [CHR 0xD1, CHR 0x81, CHR 0xD0,
       CHR 0xBE, CHR 0xD0, CHR 0xB5, CHR 0xD0, CHR 0xB4, CHR 0xD0, CHR 0xB8, CHR 0xD0,
       CHR 0xBD, CHR 0xD0, CHR 0xB5, CHR 0xD0, CHR 0xBD, CHR 0xD0, CHR 0xB8, CHR 0xD1,
       CHR 0x8F]"

text \<open>The second rule for a memory issue, as UTF-8 bytes.\<close>

definition rule_memory_2 :: string where
  "rule_memory_2 =
     [CHR 0xD0, CHR 0x98, CHR 0xD1, CHR 0x81, CHR 0xD0, CHR 0xBF, CHR 0xD0, CHR 0xBE,
       CHR 0xD0, CHR 0xBB, CHR 0xD1, CHR 0x8C, CHR 0xD0, CHR 0xB7, CHR 0xD1, CHR 0x83,
       CHR 0xD0, CHR 0xB9] @ '' '' @ [CHR 0xD0, CHR 0xB3, CHR 0xD0, CHR 0xB5, CHR 0xD0,
       CHR 0xBD, CHR 0xD0, CHR 0xB5, CHR 0xD1, CHR 0x80, CHR 0xD0, CHR 0xB0, CHR 0xD1,
       CHR 0x82, CHR 0xD0, CHR 0xBE, CHR 0xD1, CHR 0x80, CHR 0xD1, CHR 0x8B] @ '' '' @
       [CHR 0xD0, CHR 0xB2, CHR 0xD0, CHR 0xBC, CHR 0xD0, CHR 0xB5, CHR 0xD1, CHR 0x81,
       CHR 0xD1, CHR 0x82, CHR 0xD0, CHR 0xBE] @ '' '' @ [CHR 0xD1, CHR 0x81, CHR 0xD0,
       CHR 0xBF, CHR 0xD0, CHR 0xB8, CHR 0xD1, CHR 0x81, CHR 0xD0, CHR 0xBA, CHR 0xD0,
       CHR 0xBE, CHR 0xD0, CHR 0xB2] @ '' '' @ [CHR 0xD0, CHR 0xB4, CHR 0xD0, CHR 0xBB,
       CHR 0xD1, CHR 0x8F] @ '' '' @ [CHR 0xD0, CHR 0xB1, CHR 0xD0, CHR 0xBE, CHR 0xD0,
       CHR 0xBB, CHR 0xD1, CHR 0x8C, CHR 0xD1, CHR 0x88, CHR 0xD0, CHR 0xB8, CHR 0xD1,
       CHR 0x85] @ '' '' @ [CHR 0xD0, CHR 0xB4, CHR 0xD0, CHR 0xB0, CHR 0xD0, CHR 0xBD,
       CHR 0xD0, CHR 0xBD, CHR 0xD1, CHR 0x8B, CHR 0xD1, CHR 0x85]"

text \<open>The third rule for a memory issue, as UTF-8 bytes.\<close>

definition rule_memory_3 :: string where
  "rule_memory_3 =
     [CHR 0xD0, CHR 0x9C, CHR 0xD0, CHR 0xBE, CHR 0xD0, CHR 0xBD, CHR 0xD0, CHR 0xB8,
       CHR 0xD1, CHR 0x82, CHR 0xD0, CHR 0xBE, CHR 0xD1, CHR 0x80, CHR 0xD1, CHR 0x8C] @
       '' '' @ [CHR 0xD0, CHR 0xB8, CHR 0xD1, CHR 0x81, CHR 0xD0, CHR 0xBF, CHR 0xD0,
       CHR 0xBE, CHR 0xD0, CHR 0xBB, CHR 0xD1, CHR 0x8C, CHR 0xD0, CHR 0xB7, CHR 0xD0,
       CHR 0xBE, CHR 0xD0, CHR 0xB2, CHR 0xD0, CHR 0xB0, CHR 0xD0, CHR 0xBD, CHR 0xD0,
       CHR 0xB8, CHR 0xD0, CHR 0xB5] @ '' '' @ [CHR 0xD0, CHR 0xBF, CHR 0xD0, CHR 0xB0,
       CHR 0xD0, CHR 0xBC, CHR 0xD1, CHR 0x8F, CHR 0xD1, CHR 0x82, CHR 0xD0, CHR 0xB8] @
       '' '' @ [CHR 0xD0, CHR 0xB2] @ '' '' @ [CHR 0xD0, CHR 0xBA, CHR 0xD1, CHR 0x80,
       CHR 0xD0, CHR 0xB8, CHR 0xD1, CHR 0x82, CHR 0xD0, CHR 0xB8, CHR 0xD1, CHR 0x87,
       CHR 0xD0, CHR 0xB5, CHR 0xD1, CHR 0x81, CHR 0xD0, CHR 0xBA, CHR 0xD0, CHR 0xB8,
       CHR 0xD1, CHR 0x85] @ '' '' @ [CHR 0xD1, CHR 0x87, CHR 0xD0, CHR 0xB0, CHR 0xD1,
       CHR 0x81, CHR 0xD1, CHR 0x82, CHR 0xD1, CHR 0x8F, CHR 0xD1, CHR 0x85] @ '' '' @
       [CHR 0xD0, CHR 0xBA, CHR 0xD0, CHR 0xBE, CHR 0xD0, CHR 0xB4, CHR 0xD0, CHR 0xB0]"

text \<open>The first rule for a CPU issue, as UTF-8 bytes.\<close>

definition rule_cpu_1 :: string where
  "rule_cpu_1 =
     [CHR 0xD0, CHR 0x9E, CHR 0xD0, CHR 0xBF, CHR 0xD1, CHR 0x82, CHR 0xD0, CHR 0xB8,
       CHR 0xD0, CHR 0xBC, CHR 0xD0, CHR 0xB8, CHR 0xD0, CHR 0xB7, CHR 0xD0, CHR 0xB8,
       CHR 0xD1, CHR 0x80, CHR 0xD1, CHR 0x83, CHR 0xD0, CHR 0xB9] @ '' '' @ [CHR 0xD0,
       CHR 0xB0, CHR 0xD0, CHR 0xBB, CHR 0xD0, CHR 0xB3, CHR 0xD0, CHR 0xBE, CHR 0xD1,
       CHR 0x80, CHR 0xD0, CHR 0xB8, CHR 0xD1, CHR 0x82, CHR 0xD0, CHR 0xBC, CHR 0xD1,
       CHR 0x8B] @ '' '' @ [CHR 0xD1, CHR 0x81] @ '' '' @ [CHR 0xD0, CHR 0xB2, CHR 0xD1,
       CHR 0x8B, CHR 0xD1, CHR 0x81, CHR 0xD0, CHR 0xBE, CHR 0xD0, CHR 0xBA, CHR 0xD0,
       CHR 0xBE, CHR 0xD0, CHR 0xB9] @ '' '' @ [CHR 0xD0, CHR 0xB2, CHR 0xD1, CHR 0x8B,
       CHR 0xD1, CHR 0x87, CHR 0xD0, CHR 0xB8, CHR 0xD1, CHR 0x81, CHR 0xD0, CHR 0xBB,
       CHR 0xD0, CHR 0xB8, CHR 0xD1, CHR 0x82, CHR 0xD0, CHR 0xB5, CHR 0xD0, CHR 0xBB,
       CHR 0xD1, CHR 0x8C, CHR 0xD0, CHR 0xBD, CHR 0xD0, CHR 0xBE, CHR 0xD0, CHR 0xB9] @
       '' '' @ [CHR 0xD1, CHR 0x81, CHR 0xD0, CHR 0xBB, CHR 0xD0, CHR 0xBE, CHR 0xD0,
       CHR 0xB6, CHR 0xD0, CHR 0xBD, CHR 0xD0, CHR 0xBE, CHR 0xD1, CHR 0x81, CHR 0xD1,
       CHR 0x82, CHR 0xD1, CHR 0x8C, CHR 0xD1, CHR 0x8E]"

text \<open>The second rule for a CPU issue, as UTF-8 bytes.\<close>

definition rule_cpu_2 :: string where
  "rule_cpu_2 =
     [CHR 0xD0, CHR 0x98, CHR 0xD1, CHR 0x81, CHR 0xD0, CHR 0xBF, CHR 0xD0, CHR 0xBE,
       CHR 0xD0, CHR 0xBB, CHR 0xD1, CHR 0x8C, CHR 0xD0, CHR 0xB7, CHR 0xD1, CHR 0x83,
       CHR 0xD0, CHR 0xB9] @ '' '' @ [CHR 0xD0, CHR 0xBC, CHR 0xD0, CHR 0xBD, CHR 0xD0,
       CHR 0xBE, CHR 0xD0, CHR 0xB3, CHR 0xD0, CHR 0xBE, CHR 0xD0, CHR 0xBF, CHR 0xD0,
       CHR 0xBE, CHR 0xD1, CHR 0x82, CHR 0xD0, CHR 0xBE, CHR 0xD1, CHR 0x87, CHR 0xD0,
       CHR 0xBD, CHR 0xD0, CHR 0xBE, CHR 0xD1, CHR 0x81, CHR 0xD1, CHR 0x82, CHR 0xD1,
       CHR 0x8C] @ '' '' @ [CHR 0xD0, CHR 0xB4, CHR 0xD0, CHR 0xBB, CHR 0xD1, CHR 0x8F] @
       '' CPU-'' @ [CHR 0xD0, CHR 0xB8, CHR 0xD0, CHR 0xBD, CHR 0xD1, CHR 0x82, CHR 0xD0,
       CHR 0xB5, CHR 0xD0, CHR 0xBD, CHR 0xD1, CHR 0x81, CHR 0xD0, CHR 0xB8, CHR 0xD0,
       CHR 0xB2, CHR 0xD0, CHR 0xBD, CHR 0xD1, CHR 0x8B, CHR 0xD1, CHR 0x85] @ '' '' @
       [CHR 0xD0, CHR 0xB7, CHR 0xD0, CHR 0xB0, CHR 0xD0, CHR 0xB4, CHR 0xD0, CHR 0xB0,
       CHR 0xD1, CHR 0x87]"

text \<open>The third rule for a CPU issue, as UTF-8 bytes.\<close>

definition rule_cpu_3 :: string where
  "rule_cpu_3 =
     [CHR 0xD0, CHR 0x9A, CHR 0xD0, CHR 0xB5, CHR 0xD1, CHR 0x88, CHR 0xD0, CHR 0xB8,
       CHR 0xD1, CHR 0x80] @ ''y'' @ [CHR 0xD0, CHR 0xB9] @ '' '' @ [CHR 0xD1, CHR 0x80,
       CHR 0xD0, CHR 0xB5, CHR 0xD0, CHR 0xB7, CHR 0xD1, CHR 0x83, CHR 0xD0, CHR 0xBB,
       CHR 0xD1, CHR 0x8C, CHR 0xD1, CHR 0x82, CHR 0xD0, CHR 0xB0, CHR 0xD1, CHR 0x82,
       CHR 0xD1, CHR 0x8B] @ '' '' @ [CHR 0xD0, CHR 0xB4, CHR 0xD0, CHR 0xBE, CHR 0xD1,
       CHR 0x80, CHR 0xD0, CHR 0xBE, CHR 0xD0, CHR 0xB3, CHR 0xD0, CHR 0xBE, CHR 0xD1,
       CHR 0x81, CHR 0xD1, CHR 0x82, CHR 0xD0, CHR 0xBE, CHR 0xD1, CHR 0x8F, CHR 0xD1,
       CHR 0x89, CHR 0xD0, CHR 0xB8, CHR 0xD1, CHR 0x85] @ '' '' @ [CHR 0xD0, CHR 0xB2,
       CHR 0xD1, CHR 0x8B, CHR 0xD1, CHR 0x87, CHR 0xD0, CHR 0xB8, CHR 0xD1, CHR 0x81,
       CHR 0xD0, CHR 0xBB, CHR 0xD0, CHR 0xB5, CHR 0xD0, CHR 0xBD, CHR 0xD0, CHR 0xB8,
       CHR 0xD0, CHR 0xB9]"

text \<open>The rule added when error patterns were recorded, as UTF-8 bytes.\<close>

definition rule_errors :: string where
  "rule_errors =
     [CHR 0xD0, CHR 0x9E, CHR 0xD0, CHR 0xB1, CHR 0xD1, CHR 0x80, CHR 0xD0, CHR 0xB0,
       CHR 0xD0, CHR 0xB1, CHR 0xD0, CHR 0xB0, CHR 0xD1, CHR 0x82, CHR 0xD1, CHR 0x8B,
       CHR 0xD0, CHR 0xB2, CHR 0xD0, CHR 0xB0, CHR 0xD0, CHR 0xB9] @ '' '' @ [CHR 0xD0,
       CHR 0xB8, CHR 0xD1, CHR 0x81, CHR 0xD0, CHR 0xBA, CHR 0xD0, CHR 0xBB, CHR 0xD1,
       CHR 0x8E, CHR 0xD1, CHR 0x87, CHR 0xD0, CHR 0xB5, CHR 0xD0, CHR 0xBD, CHR 0xD0,
       CHR 0xB8, CHR 0xD1, CHR 0x8F] @ '' '' @ [CHR 0xD0, CHR 0xBD, CHR 0xD0, CHR 0xB0] @
       '' '' @ [CHR 0xD1, CHR 0x83, CHR 0xD1, CHR 0x80, CHR 0xD0, CHR 0xBE, CHR 0xD0,
       CHR 0xB2, CHR 0xD0, CHR 0xBD, CHR 0xD0, CHR 0xB5] @ '' '' @ [CHR 0xD0, CHR 0xBF,
       CHR 0xD1, CHR 0x80, CHR 0xD0, CHR 0xB8, CHR 0xD0, CHR 0xBB, CHR 0xD0, CHR 0xBE,
       CHR 0xD0, CHR 0xB6, CHR 0xD0, CHR 0xB5, CHR 0xD0, CHR 0xBD, CHR 0xD0, CHR 0xB8,
       CHR 0xD1, CHR 0x8F] @ '', '' @ [CHR 0xD0, CHR 0xBD, CHR 0xD0, CHR 0xB5] @ '' '' @
       [CHR 0xD0, CHR 0xB8, CHR 0xD0, CHR 0xB3, CHR 0xD0, CHR 0xBD, CHR 0xD0, CHR 0xBE,
       CHR 0xD1, CHR 0x80, CHR 0xD0, CHR 0xB8, CHR 0xD1, CHR 0x80, CHR 0xD1, CHR 0x83,
       CHR 0xD0, CHR 0xB9] @ '' '' @ [CHR 0xD0, CHR 0xB8, CHR 0xD1, CHR 0x85]"

text \<open>The keyword for password, in Russian, as UTF-8 bytes.\<close>

definition kw_parol :: string where
  "kw_parol =
     [CHR 0xD0, CHR 0xBF, CHR 0xD0, CHR 0xB0, CHR 0xD1, CHR 0x80, CHR 0xD0, CHR 0xBE,
       CHR 0xD0, CHR 0xBB, CHR 0xD1, CHR 0x8C]"

text \<open>The keyword for key, in Russian, as UTF-8 bytes.\<close>

definition kw_klyuch :: string where
  "kw_klyuch =
     [CHR 0xD0, CHR 0xBA, CHR 0xD0, CHR 0xBB, CHR 0xD1, CHR 0x8E, CHR 0xD1, CHR 0x87]"

text \<open>The keyword for test, in Russian, as UTF-8 bytes.\<close>

definition kw_test_ru :: string where
  "kw_test_ru =
     [CHR 0xD1, CHR 0x82, CHR 0xD0, CHR 0xB5, CHR 0xD1, CHR 0x81, CHR 0xD1, CHR 0x82]"

text \<open>The keyword for quality, in Russian, as UTF-8 bytes.\<close>

definition kw_kachestvo :: string where
  "kw_kachestvo =
     [CHR 0xD0, CHR 0xBA, CHR 0xD0, CHR 0xB0, CHR 0xD1, CHR 0x87, CHR 0xD0, CHR 0xB5,
       CHR 0xD1, CHR 0x81, CHR 0xD1, CHR 0x82, CHR 0xD0, CHR 0xB2, CHR 0xD0, CHR 0xBE]"

text \<open>The keyword for performance, in Russian, as UTF-8 bytes.\<close>

definition kw_proizvoditelnost :: string where
  "kw_proizvoditelnost =
     [CHR 0xD0, CHR 0xBF, CHR 0xD1, CHR 0x80, CHR 0xD0, CHR 0xBE, CHR 0xD0, CHR 0xB8,
       CHR 0xD0, CHR 0xB7, CHR 0xD0, CHR 0xB2, CHR 0xD0, CHR 0xBE, CHR 0xD0, CHR 0xB4,
       CHR 0xD0, CHR 0xB8, CHR 0xD1, CHR 0x82, CHR 0xD0, CHR 0xB5, CHR 0xD0, CHR 0xBB,
       CHR 0xD1, CHR 0x8C, CHR 0xD0, CHR 0xBD, CHR 0xD0, CHR 0xBE, CHR 0xD1, CHR 0x81,
       CHR 0xD1, CHR 0x82, CHR 0xD1, CHR 0x8C]"

text \<open>The keyword stem for optimise, in Russian, as UTF-8 bytes.\<close>

definition kw_optimiz :: string where
  "kw_optimiz =
     [CHR 0xD0, CHR 0xBE, CHR 0xD0, CHR 0xBF, CHR 0xD1, CHR 0x82, CHR 0xD0, CHR 0xB8,
       CHR 0xD0, CHR 0xBC, CHR 0xD0, CHR 0xB8, CHR 0xD0, CHR 0xB7]"

text \<open>The keyword for style, in Russian, as UTF-8 bytes.\<close>

definition kw_stil :: string where
  "kw_stil =
     [CHR 0xD1, CHR 0x81, CHR 0xD1, CHR 0x82, CHR 0xD0, CHR 0xB8, CHR 0xD0, CHR 0xBB,
       CHR 0xD1, CHR 0x8C]"

text \<open>The keyword stem for comment, in Russian, as UTF-8 bytes.\<close>

definition kw_kommentar :: string where
  "kw_kommentar =
     [CHR 0xD0, CHR 0xBA, CHR 0xD0, CHR 0xBE, CHR 0xD0, CHR 0xBC, CHR 0xD0, CHR 0xBC,
       CHR 0xD0, CHR 0xB5, CHR 0xD0, CHR 0xBD, CHR 0xD1, CHR 0x82, CHR 0xD0, CHR 0xB0,
       CHR 0xD1, CHR 0x80]"

text \<open>The keyword stem for document, in Russian, as UTF-8 bytes.\<close>

definition kw_dokument :: string where
  "kw_dokument =
     [CHR 0xD0, CHR 0xB4, CHR 0xD0, CHR 0xBE, CHR 0xD0, CHR 0xBA, CHR 0xD1, CHR 0x83,
       CHR 0xD0, CHR 0xBC, CHR 0xD0, CHR 0xB5, CHR 0xD0, CHR 0xBD, CHR 0xD1, CHR 0x82]"

text \<open>The keyword stem for security, in Russian, as UTF-8 bytes.\<close>

definition kw_bezopas :: string where
  "kw_bezopas =
     [CHR 0xD0, CHR 0xB1, CHR 0xD0, CHR 0xB5, CHR 0xD0, CHR 0xB7, CHR 0xD0, CHR 0xBE,
       CHR 0xD0, CHR 0xBF, CHR 0xD0, CHR 0xB0, CHR 0xD1, CHR 0x81]"

text \<open>The first line of the rules file, as UTF-8 bytes.\<close>

definition header_title :: string where
  "header_title =
     ''# '' @ [CHR 0xD0, CHR 0x9F, CHR 0xD1, CHR 0x80, CHR 0xD0, CHR 0xB0, CHR 0xD0,
       CHR 0xB2, CHR 0xD0, CHR 0xB8, CHR 0xD0, CHR 0xBB, CHR 0xD0, CHR 0xB0] @
       '' Cline '' @ [CHR 0xD0, CHR 0xB4, CHR 0xD0, CHR 0xBB, CHR 0xD1, CHR 0x8F] @ '' '' @
       [CHR 0xD0, CHR 0xBF, CHR 0xD1, CHR 0x80, CHR 0xD0, CHR 0xBE, CHR 0xD0, CHR 0xB5,
       CHR 0xD0, CHR 0xBA, CHR 0xD1, CHR 0x82, CHR 0xD0, CHR 0xB0]"

text \<open>The prefix of the timestamp line, as UTF-8 bytes.\<close>

definition header_generated :: string where
  "header_generated =
     ''# '' @ [CHR 0xD0, CHR 0x90, CHR 0xD0, CHR 0xB2, CHR 0xD1, CHR 0x82, CHR 0xD0,
       CHR 0xBE, CHR 0xD0, CHR 0xB3, CHR 0xD0, CHR 0xB5, CHR 0xD0, CHR 0xBD, CHR 0xD0,
       CHR 0xB5, CHR 0xD1, CHR 0x80, CHR 0xD0, CHR 0xB8, CHR 0xD1, CHR 0x80, CHR 0xD0,
       CHR 0xBE, CHR 0xD0, CHR 0xB2, CHR 0xD0, CHR 0xB0, CHR 0xD0, CHR 0xBD, CHR 0xD0,
       CHR 0xBD, CHR 0xD0, CHR 0xBE] @ '': ''"

text \<open>The prefix of the project type line, as UTF-8 bytes.\<close>

definition header_project_type :: string where
  "header_project_type =
     ''# '' @ [CHR 0xD0, CHR 0xA2, CHR 0xD0, CHR 0xB8, CHR 0xD0, CHR 0xBF] @ '' '' @
       [CHR 0xD0, CHR 0xBF, CHR 0xD1, CHR 0x80, CHR 0xD0, CHR 0xBE, CHR 0xD0, CHR 0xB5,
       CHR 0xD0, CHR 0xBA, CHR 0xD1, CHR 0x82, CHR 0xD0, CHR 0xB0] @ '': ''"

text \<open>The prefix of the languages line, as UTF-8 bytes.\<close>

definition header_languages :: string where
  "header_languages =
     ''# '' @ [CHR 0xD0, CHR 0xAF, CHR 0xD0, CHR 0xB7, CHR 0xD1, CHR 0x8B, CHR 0xD0,
       CHR 0xBA, CHR 0xD0, CHR 0xB8] @ '': ''"

text \<open>The prefix of the frameworks line, as UTF-8 bytes.\<close>

definition header_frameworks :: string where
  "header_frameworks =
     ''# '' @ [CHR 0xD0, CHR 0xA4, CHR 0xD1, CHR 0x80, CHR 0xD0, CHR 0xB5, CHR 0xD0,
       CHR 0xB9, CHR 0xD0, CHR 0xBC, CHR 0xD0, CHR 0xB2, CHR 0xD0, CHR 0xBE, CHR 0xD1,
       CHR 0x80, CHR 0xD0, CHR 0xBA, CHR 0xD0, CHR 0xB8] @ '': ''"

text \<open>The heading for security, as UTF-8 bytes.\<close>

definition cat_security :: string where
  "cat_security =
     [CHR 0xD0, CHR 0x91, CHR 0xD0, CHR 0xB5, CHR 0xD0, CHR 0xB7, CHR 0xD0, CHR 0xBE,
       CHR 0xD0, CHR 0xBF, CHR 0xD0, CHR 0xB0, CHR 0xD1, CHR 0x81, CHR 0xD0, CHR 0xBD,
       CHR 0xD0, CHR 0xBE, CHR 0xD1, CHR 0x81, CHR 0xD1, CHR 0x82, CHR 0xD1, CHR 0x8C]"

text \<open>The heading for code quality, as UTF-8 bytes.\<close>

definition cat_quality :: string where
  "cat_quality =
     [CHR 0xD0, CHR 0x9A, CHR 0xD0, CHR 0xB0, CHR 0xD1, CHR 0x87, CHR 0xD0, CHR 0xB5,
       CHR 0xD1, CHR 0x81, CHR 0xD1, CHR 0x82, CHR 0xD0, CHR 0xB2, CHR 0xD0, CHR 0xBE] @
       '' '' @ [CHR 0xD0, CHR 0xBA, CHR 0xD0, CHR 0xBE, CHR 0xD0, CHR 0xB4, CHR 0xD0,
       CHR 0xB0]"

text \<open>The heading for performance, as UTF-8 bytes.\<close>

definition cat_performance :: string where
  "cat_performance =
     [CHR 0xD0, CHR 0x9F, CHR 0xD1, CHR 0x80, CHR 0xD0, CHR 0xBE, CHR 0xD0, CHR 0xB8,
       CHR 0xD0, CHR 0xB7, CHR 0xD0, CHR 0xB2, CHR 0xD0, CHR 0xBE, CHR 0xD0, CHR 0xB4,
       CHR 0xD0, CHR 0xB8, CHR 0xD1, CHR 0x82, CHR 0xD0, CHR 0xB5, CHR 0xD0, CHR 0xBB,
       CHR 0xD1, CHR 0x8C, CHR 0xD0, CHR 0xBD, CHR 0xD0, CHR 0xBE, CHR 0xD1, CHR 0x81,
       CHR 0xD1, CHR 0x82, CHR 0xD1, CHR 0x8C]"

text \<open>The heading for testing, as UTF-8 bytes.\<close>

definition cat_testing :: string where
  "cat_testing =
     [CHR 0xD0, CHR 0xA2, CHR 0xD0, CHR 0xB5, CHR 0xD1, CHR 0x81, CHR 0xD1, CHR 0x82,
       CHR 0xD0, CHR 0xB8, CHR 0xD1, CHR 0x80, CHR 0xD0, CHR 0xBE, CHR 0xD0, CHR 0xB2,
       CHR 0xD0, CHR 0xB0, CHR 0xD0, CHR 0xBD, CHR 0xD0, CHR 0xB8, CHR 0xD0, CHR 0xB5]"

text \<open>The heading for documentation, as UTF-8 bytes.\<close>

definition cat_documentation :: string where
  "cat_documentation =
     [CHR 0xD0, CHR 0x94, CHR 0xD0, CHR 0xBE, CHR 0xD0, CHR 0xBA, CHR 0xD1, CHR 0x83,
       CHR 0xD0, CHR 0xBC, CHR 0xD0, CHR 0xB5, CHR 0xD0, CHR 0xBD, CHR 0xD1, CHR 0x82,
       CHR 0xD0, CHR 0xB0, CHR 0xD1, CHR 0x86, CHR 0xD0, CHR 0xB8, CHR 0xD1, CHR 0x8F]"

text \<open>The heading for general rules, as UTF-8 bytes.\<close>

definition cat_general :: string where
  "cat_general =
     [CHR 0xD0, CHR 0x9E, CHR 0xD0, CHR 0xB1, CHR 0xD1, CHR 0x89, CHR 0xD0, CHR 0xB8,
       CHR 0xD0, CHR 0xB5] @ '' '' @ [CHR 0xD0, CHR 0xBF, CHR 0xD1, CHR 0x80, CHR 0xD0,
       CHR 0xB0, CHR 0xD0, CHR 0xB2, CHR 0xD0, CHR 0xB8, CHR 0xD0, CHR 0xBB, CHR 0xD0,
       CHR 0xB0]"

subsection \<open>Selecting the rules\<close>

text \<open>\<open>_is_web_project\<close> of \<open>RulesGenerator\<close>.\<close>

definition rules_is_web_project :: "config_data \<Rightarrow> bool" where
  "rules_is_web_project cd =
     (let ps = get_default (project_structure cd) empty_project;
          langs = get_default (languages ps) [];
          fws = get_default (frameworks ps) [];
          web_indicators = [''javascript'', ''typescript'', ''nodejs'', ''react'', ''vue'',
                            ''angular'']
      in list_ex (\<lambda>indicator. indicator \<in> set (langs @ fws)) web_indicators)"

definition has_tests :: "config_data \<Rightarrow> bool" where
  "has_tests cd =
     (let ps = get_default (project_structure cd) empty_project;
          counts = get_default (file_counts ps) [];
          test_indicators = [''.test.'', ''.spec.'', ''_test.'', ''test_'', ''tests/'']
      in list_ex (\<lambda>file_pattern. list_ex (\<lambda>indicator. contains file_pattern indicator)
                    test_indicators) (map fst counts))"

definition select_base_rules :: "rules_generator \<Rightarrow> config_data \<Rightarrow> performance_data \<Rightarrow> string list"
where
  "select_base_rules self cd pd =
     take 3 (general_rules self) @
     (if rules_is_web_project cd then take 3 (security_rules self) else []) @
     (if get_default (performance_issues pd) [] \<noteq> [] then take 2 (performance_rules self)
      else []) @
     (if has_tests cd then take 3 (testing_rules self) else [rule_create_tests]) @
     take 2 (documentation_rules self)"

definition select_language_rules :: "rules_generator \<Rightarrow> config_data \<Rightarrow> string list" where
  "select_language_rules self cd =
     (let langs = get_default (languages (get_default (project_structure cd) empty_project)) []
      in concat (map (\<lambda>language. case map_of (language_specific_rules self) language of
                                     Some lang_rules \<Rightarrow> take 5 lang_rules
                                   | None \<Rightarrow> []) langs))"

text \<open>\<open>_detect_specific_frameworks\<close> finds nothing.\<close>

definition detect_specific_frameworks :: "config_data \<Rightarrow> string list" where
  "detect_specific_frameworks cd = []"

definition select_framework_rules :: "rules_generator \<Rightarrow> config_data \<Rightarrow> string list" where
  "select_framework_rules self cd =
     (let fws = get_default (frameworks (get_default (project_structure cd) empty_project)) []
                @ detect_specific_frameworks cd
      in concat (map (\<lambda>framework. case map_of (framework_rules self) framework of
                                      Some rules \<Rightarrow> take 3 rules
                                    | None \<Rightarrow> []) fws))"

definition generate_adaptive_rules :: "performance_data \<Rightarrow> string list" where
  "generate_adaptive_rules pd =
     concat (map (\<lambda>i. if issue_type i = ''memory''
                       then [rule_memory_1, rule_memory_2, rule_memory_3]
                       else if issue_type i = ''cpu''
                       then [rule_cpu_1, rule_cpu_2, rule_cpu_3]
                       else [])
               (get_default (performance_issues pd) [])) @
     (if get_default (perf_error_patterns pd) [] \<noteq> [] then [rule_errors] else [])"

definition is_custom_rule ::
  "rules_generator \<Rightarrow> (string \<Rightarrow> string) \<Rightarrow> (string \<Rightarrow> string) \<Rightarrow> string \<Rightarrow> bool"
where
  "is_custom_rule self lower strip rule =
     (let all_base_rules =
            general_rules self @ security_rules self @ performance_rules self @
            testing_rules self @ documentation_rules self @
            concat (map snd (language_specific_rules self)) @
            concat (map snd (framework_rules self));
          rule_lower = strip (lower rule)
      in \<not> list_ex (\<lambda>base_rule. rule_lower = strip (lower base_rule)) all_base_rules)"

definition preserve_custom_rules ::
  "rules_generator \<Rightarrow> (string \<Rightarrow> string) \<Rightarrow> (string \<Rightarrow> string) \<Rightarrow> config_data \<Rightarrow> string list"
where
  "preserve_custom_rules self lower strip cd =
     (let cur = get_default (current_rules cd) empty_rules
      in if get_default (rules_exists cur) False \<and> get_default (content cur) [] \<noteq> []
         then filter (\<lambda>line. line \<noteq> [] \<and> \<not> starts_with line ''#'' \<and>
                              is_custom_rule self lower strip line)
                (map strip (split_on (CHR 0x0A) (get_default (content cur) [])))
         else [])"

subsection \<open>\<open>_remove_duplicates\<close> and \<open>_prioritize_rules\<close>\<close>

text \<open>The loop of \<open>_remove_duplicates\<close>, with its set \<open>seen\<close> and its list \<open>unique_rules\<close>.\<close>

fun remove_duplicates_loop ::
  "(string \<Rightarrow> string) \<Rightarrow> (string \<Rightarrow> string) \<Rightarrow> string set \<Rightarrow> string list \<Rightarrow> string list
   \<Rightarrow> string list"
where
  "remove_duplicates_loop lower strip seen unique_rules [] = unique_rules"
| "remove_duplicates_loop lower strip seen unique_rules (rule # rest) =
     (let rule_lower = strip (lower rule)
      in if rule_lower \<notin> seen
         then remove_duplicates_loop lower strip (insert rule_lower seen)
                (unique_rules @ [rule]) rest
         else remove_duplicates_loop lower strip seen unique_rules rest)"

definition remove_duplicates ::
  "(string \<Rightarrow> string) \<Rightarrow> (string \<Rightarrow> string) \<Rightarrow> string list \<Rightarrow> string list"
where
  "remove_duplicates lower strip rules = remove_duplicates_loop lower strip {} [] rules"

definition rule_priority :: "(string \<Rightarrow> string) \<Rightarrow> string \<Rightarrow> int" where
  "rule_priority lower rule =
     (let rule_lower = lower rule
      in if list_ex (contains rule_lower) [''security'', kw_parol, kw_klyuch, ''auth''] then 1
         else if list_ex (contains rule_lower) [''test'', kw_test_ru, kw_kachestvo] then 2
         else if list_ex (contains rule_lower)
                   [''performance'', kw_proizvoditelnost, kw_optimiz] then 3
         else if list_ex (contains rule_lower)
                   [''style'', kw_stil, kw_kommentar, kw_dokument] then 4
         else 5)"

text \<open>\<open>sorted(rules, key=rule_priority)\<close>: Python's sort is stable, as \<open>sort_key\<close> is.\<close>

definition prioritize_rules ::
  "(string \<Rightarrow> string) \<Rightarrow> string list \<Rightarrow> config_data \<Rightarrow> string list"
where
  "prioritize_rules lower rules cd = sort_key (rule_priority lower) rules"

subsection \<open>\<open>_format_rules_file\<close> and \<open>generate_improved_rules\<close>\<close>

text \<open>The heading under which \<open>_format_rules_file\<close> puts a rule.\<close>

definition category_of :: "(string \<Rightarrow> string) \<Rightarrow> string \<Rightarrow> string" where
  "category_of lower rule =
     (let rule_lower = lower rule
      in if list_ex (contains rule_lower) [''security'', kw_bezopas, kw_parol, kw_klyuch]
         then cat_security
         else if list_ex (contains rule_lower) [''test'', kw_test_ru] then cat_testing
         else if list_ex (contains rule_lower)
                   [''performance'', kw_proizvoditelnost, kw_optimiz] then cat_performance
         else if list_ex (contains rule_lower) [''doc'', kw_dokument, kw_kommentar]
         then cat_documentation
         else if list_ex (contains rule_lower) [''style'', kw_stil, ''format'', kw_kachestvo]
         then cat_quality
         else cat_general)"

text \<open>The headings, in the order of the dictionary \<open>categories\<close>.\<close>

definition category_names :: "string list" where
  "category_names =
     [cat_security, cat_quality, cat_performance, cat_testing, cat_documentation, cat_general]"

definition category_lines :: "(string \<Rightarrow> string) \<Rightarrow> string list \<Rightarrow> string \<Rightarrow> string list" where
  "category_lines lower rules category_name =
     (let category_rules = filter (\<lambda>rule. category_of lower rule = category_name) rules
      in if category_rules \<noteq> []
         then [''## '' @ category_name, ''''] @ map (\<lambda>rule. ''- '' @ rule) category_rules @ ['''']
         else [])"

definition format_rules_file ::
  "(string \<Rightarrow> string) \<Rightarrow> string \<Rightarrow> string list \<Rightarrow> config_data \<Rightarrow> py_error + string"
where
  "format_rules_file lower now rules cd =
     (let lines0 = [header_title, header_generated @ now, ''''];
          project_info = get_default (project_structure cd) empty_project
      in case (if project_type project_info \<noteq> Some ''unknown''
               then (case project_type project_info of
                       None \<Rightarrow> Inl (KeyError ''project_type'')
                     | Some t \<Rightarrow> Inr (lines0 @ [header_project_type @ t]))
               else Inr lines0) of
           Inl e \<Rightarrow> Inl e
         | Inr lines1 \<Rightarrow>
             (let lines2 = (if get_default (languages project_info) [] \<noteq> []
                            then lines1 @ [header_languages @
                                   join '', '' (get_default (languages project_info) [])]
                            else lines1);
                  lines3 = (if get_default (frameworks project_info) [] \<noteq> []
                            then lines2 @ [header_frameworks @
                                   join '', '' (get_default (frameworks project_info) [])]
                            else lines2);
                  lines4 = lines3 @ [''''];
                  lines5 = lines4 @ concat (map (category_lines lower rules) category_names)
              in Inr (join [CHR 0x0A] lines5)))"

definition generate_improved_rules ::
  "rules_generator \<Rightarrow> (string \<Rightarrow> string) \<Rightarrow> (string \<Rightarrow> string) \<Rightarrow> string \<Rightarrow>
   config_data \<Rightarrow> performance_data \<Rightarrow> py_error + string"
where
  "generate_improved_rules self lower strip now cd pd =
     (let selected_rules =
            select_base_rules self cd pd @
            select_language_rules self cd @
            select_framework_rules self cd @
            generate_adaptive_rules pd @
            preserve_custom_rules self lower strip cd;
          deduplicated = remove_duplicates lower strip selected_rules;
          prioritized = prioritize_rules lower deduplicated cd
      in format_rules_file lower now prioritized cd)"

section \<open>The merge on a store of objects\<close>

text \<open>
  In Python a dictionary or a list is an object with an identity, and a tree may share
  sub-objects with another. To speak of mutation and aliasing the same two routines are
  written here over an explicit store: a list of objects, an address being an index, and
  allocation appending to the list. A scalar is an immutable value and is held in place;
  a dictionary or a list is held by reference. Recursion through the store need not end
  (a cyclic store), so the routines take fuel, and \<open>None\<close> says that they did not return.
\<close>

datatype pval = PScalar scalar | PRef nat

datatype obj = ODict "(string \<times> pval) list" | OList "pval list"

type_synonym heap = "obj list"

definition dict_at :: "heap \<Rightarrow> nat \<Rightarrow> (string \<times> pval) list option" where
  "dict_at h a =
     (if a < length h then (case h ! a of ODict kvs \<Rightarrow> Some kvs | OList xs \<Rightarrow> None)
      else None)"

text \<open>Running a store-passing function over a list, left to right.\<close>

fun thread :: "(heap \<Rightarrow> 'a \<Rightarrow> (heap \<times> 'b) option) \<Rightarrow> heap \<Rightarrow> 'a list \<Rightarrow> (heap \<times> 'b list) option"
where
  "thread f h [] = Some (h, [])"
| "thread f h (x # xs) =
     (case f h x of
        None \<Rightarrow> None
      | Some (h1, y) \<Rightarrow>
          (case thread f h1 xs of
             None \<Rightarrow> None
           | Some (h2, ys) \<Rightarrow> Some (h2, y # ys)))"

text \<open>\<open>_deep_copy\<close>: a new dictionary or list of copied members; a scalar as it is.\<close>

primrec deep_copy_h :: "nat \<Rightarrow> heap \<Rightarrow> pval \<Rightarrow> (heap \<times> pval) option" where
  "deep_copy_h 0 = (\<lambda>h v. None)"
| "deep_copy_h (Suc n) = (\<lambda>h v.
     case v of
       PScalar s \<Rightarrow> Some (h, PScalar s)
     | PRef a \<Rightarrow>
         if a < length h
         then (case h ! a of
                 ODict kvs \<Rightarrow>
                   (case thread (deep_copy_h n) h (map snd kvs) of
                      None \<Rightarrow> None
                    | Some (h1, vs) \<Rightarrow>
                        Some (h1 @ [ODict (zip (map fst kvs) vs)], PRef (length h1)))
               | OList xs \<Rightarrow>
                   (case thread (deep_copy_h n) h xs of
                      None \<Rightarrow> None
                    | Some (h1, vs) \<Rightarrow> Some (h1 @ [OList vs], PRef (length h1))))
         else None)"

text \<open>
  The loop of \<open>_merge_settings\<close> over the items of \<open>update\<close>, the dictionary \<open>result\<close>
  being the object at address \<open>r\<close>. \<open>rec\<close> is the recursive call and \<open>copy\<close> is
  \<open>_deep_copy\<close>; the store after the call is the one in which \<open>result[key]\<close> is assigned.
\<close>

fun merge_loop_h ::
  "(heap \<Rightarrow> nat \<Rightarrow> nat \<Rightarrow> (heap \<times> nat) option) \<Rightarrow> (heap \<Rightarrow> pval \<Rightarrow> (heap \<times> pval) option) \<Rightarrow>
   heap \<Rightarrow> nat \<Rightarrow> (string \<times> pval) list \<Rightarrow> heap option"
where
  "merge_loop_h rec copy h r [] = Some h"
| "merge_loop_h rec copy h r ((key, value) # rest) =
     (case dict_at h r of
        None \<Rightarrow> None
      | Some ritems \<Rightarrow>
          (case (case (map_of ritems key, value) of
                   (Some (PRef a), PRef b) \<Rightarrow>
                     (if dict_at h a \<noteq> None \<and> dict_at h b \<noteq> None
                      then (case rec h a b of
                              None \<Rightarrow> None
                            | Some (h1, m) \<Rightarrow> Some (h1, PRef m))
                      else copy h value)
                 | _ \<Rightarrow> copy h value) of
             None \<Rightarrow> None
           | Some (h1, v) \<Rightarrow>
               (case dict_at h1 r of
                  None \<Rightarrow> None
                | Some ritems1 \<Rightarrow>
                    merge_loop_h rec copy (h1[r := ODict (dict_set ritems1 key v)]) r rest)))"

text \<open>\<open>_merge_settings(base, update)\<close> for the dictionaries at two addresses.\<close>

primrec merge_h :: "nat \<Rightarrow> heap \<Rightarrow> nat \<Rightarrow> nat \<Rightarrow> (heap \<times> nat) option" where
  "merge_h 0 = (\<lambda>h base update. None)"
| "merge_h (Suc n) = (\<lambda>h base update.
     case dict_at h base of
       None \<Rightarrow> None
     | Some bitems \<Rightarrow>
         (case deep_copy_h n h (PRef base) of
            Some (h1, PRef r) \<Rightarrow>
              (case dict_at h1 update of
                 None \<Rightarrow> None
               | Some uitems \<Rightarrow>
                   (case merge_loop_h (merge_h n) (deep_copy_h n) h1 r uitems of
                      None \<Rightarrow> None
                    | Some h2 \<Rightarrow> Some (h2, r)))
          | _ \<Rightarrow> None))"

text \<open>The fold of \<open>generate_adaptive_config\<close>: each layer merged into the result so far.\<close>

fun merge_layers_h :: "nat \<Rightarrow> heap \<Rightarrow> nat \<Rightarrow> nat list \<Rightarrow> (heap \<times> nat) option" where
  "merge_layers_h n h cur [] = Some (h, cur)"
| "merge_layers_h n h cur (layer # layers) =
     (case merge_h n h cur layer of
        None \<Rightarrow> None
      | Some (h1, r) \<Rightarrow> merge_layers_h n h1 r layers)"

subsection \<open>Reading the store\<close>

text \<open>The addresses held by a value and by an object.\<close>

fun refs_val :: "pval \<Rightarrow> nat set" where
  "refs_val (PScalar s) = {}"
| "refs_val (PRef a) = {a}"

fun refs_obj :: "obj \<Rightarrow> nat set" where
  "refs_obj (ODict kvs) = (\<Union>v \<in> set (map snd kvs). refs_val v)"
| "refs_obj (OList xs) = (\<Union>v \<in> set xs. refs_val v)"

text \<open>The objects that can be reached from an address.\<close>

inductive_set reach :: "heap \<Rightarrow> nat \<Rightarrow> nat set" for h :: heap and root :: nat where
  root: "root \<in> reach h root"
| step: "a \<in> reach h root \<Longrightarrow> a < length h \<Longrightarrow> b \<in> refs_obj (h ! a) \<Longrightarrow> b \<in> reach h root"

text \<open>
  The tree that a value of the store stands for, read through the objects whose
  addresses lie in \<open>S\<close>.
\<close>

inductive repr_in :: "nat set \<Rightarrow> heap \<Rightarrow> pval \<Rightarrow> cval \<Rightarrow> bool" for S :: "nat set" and h :: heap
where
  scalar: "repr_in S h (PScalar s) (Scalar s)"
| seq: "a \<in> S \<Longrightarrow> a < length h \<Longrightarrow> h ! a = OList xs \<Longrightarrow> list_all2 (repr_in S h) xs ts \<Longrightarrow>
        repr_in S h (PRef a) (Seq ts)"
| mapping: "a \<in> S \<Longrightarrow> a < length h \<Longrightarrow> h ! a = ODict kvs \<Longrightarrow> map fst kvs = map fst kts \<Longrightarrow>
        list_all2 (repr_in S h) (map snd kvs) (map snd kts) \<Longrightarrow> repr_in S h (PRef a) (Mapping kts)"

definition repr :: "heap \<Rightarrow> pval \<Rightarrow> cval \<Rightarrow> bool" where
  "repr h v t = repr_in UNIV h v t"

text \<open>The depth of a tree: the fuel that copying it takes.\<close>

fun depth :: "cval \<Rightarrow> nat" where
  "depth (Scalar s) = 0"
| "depth (Seq items) = Suc (fold max (map depth items) 0)"
| "depth (Mapping kvs) = Suc (fold max (map (\<lambda>kv. depth (snd kv)) kvs) 0)"

text \<open>
  What an operation may do to the store: keep every object that was there, and make
  objects that only hold one another.
\<close>

definition extends :: "heap \<Rightarrow> heap \<Rightarrow> bool" where
  "extends h h' = (length h \<le> length h' \<and> take (length h) h' = h)"

definition fresh_region :: "heap \<Rightarrow> heap \<Rightarrow> bool" where
  "fresh_region h h' =
     list_all (\<lambda>ob. refs_obj ob \<subseteq> {length h..<length h'}) (drop (length h) h')"

text \<open>A store for the examples: two layers that share the sub-dictionary at address 0.\<close>

definition shared_store :: heap where
  "shared_store =
     [ODict [(''indentation'', PScalar (SInt 4))],
      OList [PScalar (SStr ''x'')],
      ODict [(''codeStyle'', PRef 0), (''tags'', PRef 1), (''requestLimit'', PScalar (SInt 25))],
      ODict [(''quotes'', PScalar (SStr ''single''))],
      ODict [(''codeStyle'', PRef 3), (''shared'', PRef 0)]]"

text \<open>
  The same store after the dictionary at address 2 has been merged with the one at
  address 4: five objects as before, then the copies and the result, at address 7.
\<close>

definition merged_store :: heap where
  "merged_store =
     shared_store @
     [ODict [(''indentation'', PScalar (SInt 4))],
      OList [PScalar (SStr ''x'')],
      ODict [(''codeStyle'', PRef 8), (''tags'', PRef 6),
             (''requestLimit'', PScalar (SInt 25)), (''shared'', PRef 9)],
      ODict [(''indentation'', PScalar (SInt 4)), (''quotes'', PScalar (SStr ''single''))],
      ODict [(''indentation'', PScalar (SInt 4))]]"

text \<open>The trees that the addresses 2 and 4 of that store stand for.\<close>

definition store_tree_2 :: dict where
  "store_tree_2 =
     [(''codeStyle'', Mapping [(''indentation'', Scalar (SInt 4))]),
      (''tags'', Seq [Scalar (SStr ''x'')]),
      (''requestLimit'', Scalar (SInt 25))]"

definition store_tree_4 :: dict where
  "store_tree_4 =
     [(''codeStyle'', Mapping [(''quotes'', Scalar (SStr ''single''))]),
      (''shared'', Mapping [(''indentation'', Scalar (SInt 4))])]"

section \<open>Properties of the merge\<close>

declare merge_settings.simps [simp del]

lemma deep_copy_id: "deep_copy v = v"
proof (induction v rule: deep_copy.induct)
  case (1 kvs)
  have "map (\<lambda>(key, value). (key, deep_copy value)) kvs = map (\<lambda>kv. kv) kvs"
    using 1 by (intro map_cong) auto
  then show ?case by simp
next
  case (2 items)
  then show ?case by (simp add: map_idI)
next
  case (3 s)
  then show ?case by simp
qed

lemma deep_copy_items: "deep_copy_dict d = d"
  using deep_copy_id [of "Mapping d"] by (simp add: deep_copy_dict_def)

lemma merge_settings_loop: "merge_settings base update = merge_loop base update"
  by (simp add: merge_settings.simps deep_copy_items)

lemma map_of_dict_set:
  "map_of (dict_set d key v) k = (if k = key then Some v else map_of d k)"
  by (induction d key v rule: dict_set.induct) auto

lemma keys_dict_set:
  "map fst (dict_set d key v) = (if key \<in> set (map fst d) then map fst d else map fst d @ [key])"
  by (induction d key v rule: dict_set.induct) auto

lemma merge_step_keys:
  "map fst (case (map_of result key, value) of
          (Some (Mapping r), Mapping u) \<Rightarrow> dict_set result key (Mapping (f r u))
        | _ \<Rightarrow> dict_set result key (g value))
   = (if key \<in> set (map fst result) then map fst result else map fst result @ [key])"
  by (simp add: keys_dict_set split: option.split cval.split)

lemma merge_step_lookup:
  "map_of (case (map_of result key, value) of
          (Some (Mapping r), Mapping u) \<Rightarrow> dict_set result key (Mapping (merge_settings r u))
        | _ \<Rightarrow> dict_set result key (deep_copy value)) k
   = (if k = key then merge_at (map_of result key) (Some value) else map_of result k)"
  by (cases "map_of result key"; cases "value"; cases "the (map_of result key)")
     (auto simp: map_of_dict_set deep_copy_id)

lemma keys_merge_loop:
  "distinct (map fst update) \<Longrightarrow>
   map fst (merge_loop result update) =
     map fst result @ filter (\<lambda>k. k \<notin> set (map fst result)) (map fst update)"
proof (induction update arbitrary: result)
  case Nil
  then show ?case by simp
next
  case (Cons kv rest)
  obtain key "value" where kv: "kv = (key, value)" by (cases kv)
  let ?r = "case (map_of result key, value) of
          (Some (Mapping r), Mapping u) \<Rightarrow> dict_set result key (Mapping (merge_settings r u))
        | _ \<Rightarrow> dict_set result key (deep_copy value)"
  have d: "distinct (map fst rest)" and nk: "key \<notin> set (map fst rest)"
    using Cons.prems kv by auto
  have keys: "map fst ?r =
      (if key \<in> set (map fst result) then map fst result else map fst result @ [key])"
    by (rule merge_step_keys)
  have "map fst (merge_loop result (kv # rest)) = map fst (merge_loop ?r rest)"
    by (simp add: kv)
  also have "\<dots> = map fst ?r @ filter (\<lambda>k. k \<notin> set (map fst ?r)) (map fst rest)"
    by (rule Cons.IH [OF d])
  also have "\<dots> = map fst result @
      filter (\<lambda>k. k \<notin> set (map fst result)) (map fst (kv # rest))"
  proof (cases "key \<in> set (map fst result)")
    case True
    then show ?thesis unfolding keys by (simp add: kv)
  next
    case False
    have "filter (\<lambda>k. k \<noteq> key \<and> k \<notin> set (map fst result)) (map fst rest)
        = filter (\<lambda>k. k \<notin> set (map fst result)) (map fst rest)"
      using nk by (intro filter_cong) auto
    with False show ?thesis unfolding keys by (simp add: kv)
  qed
  finally show ?case .
qed

lemma lookup_merge_loop:
  "distinct (map fst update) \<Longrightarrow>
   map_of (merge_loop result update) k = merge_at (map_of result k) (map_of update k)"
proof (induction update arbitrary: result)
  case Nil
  then show ?case by simp
next
  case (Cons kv rest)
  obtain key "value" where kv: "kv = (key, value)" by (cases kv)
  let ?r = "case (map_of result key, value) of
          (Some (Mapping r), Mapping u) \<Rightarrow> dict_set result key (Mapping (merge_settings r u))
        | _ \<Rightarrow> dict_set result key (deep_copy value)"
  have d: "distinct (map fst rest)" and nk: "key \<notin> set (map fst rest)"
    using Cons.prems kv by auto
  have nk': "map_of rest key = None"
    using nk by (simp add: map_of_eq_None_iff)
  have "map_of (merge_loop result (kv # rest)) k = map_of (merge_loop ?r rest) k"
    by (simp add: kv)
  also have "\<dots> = merge_at (map_of ?r k) (map_of rest k)"
    by (rule Cons.IH [OF d])
  also have "\<dots> = merge_at (map_of result k) (map_of (kv # rest) k)"
    unfolding merge_step_lookup using nk' by (simp add: kv)
  finally show ?case .
qed

lemma keys_merge:
  "distinct (map fst update) \<Longrightarrow>
   map fst (merge_settings base update) =
     map fst base @ filter (\<lambda>k. k \<notin> set (map fst base)) (map fst update)"
  by (simp only: merge_settings_loop keys_merge_loop)

lemma lookup_merge:
  "distinct (map fst update) \<Longrightarrow>
   map_of (merge_settings base update) k = merge_at (map_of base k) (map_of update k)"
  by (simp only: merge_settings_loop lookup_merge_loop)

lemma set_dict_set: "set (dict_set d key v) \<subseteq> insert (key, v) (set d)"
  by (induction d key v rule: dict_set.induct) auto

lemma wf_dict_Nil: "wf_dict []"
  by (simp add: wf_dict_def)

lemma wf_dict_lookup: "wf_dict d \<Longrightarrow> map_of d k = Some v \<Longrightarrow> wf_val v"
  by (auto simp: wf_dict_def dest: map_of_SomeD)

lemma wf_dict_set: "wf_dict d \<Longrightarrow> wf_val v \<Longrightarrow> wf_dict (dict_set d key v)"
proof -
  assume d: "wf_dict d" and v: "wf_val v"
  have "distinct (map fst (dict_set d key v))"
    using d by (auto simp: keys_dict_set wf_dict_def)
  moreover have "\<forall>kv \<in> set (dict_set d key v). wf_val (snd kv)"
    using set_dict_set [of d key v] d v by (auto simp: wf_dict_def)
  ultimately show ?thesis by (simp add: wf_dict_def)
qed

lemma wf_dict_Cons:
  "wf_dict ((k, v) # rest) \<Longrightarrow> wf_val v \<and> wf_dict rest \<and> k \<notin> set (map fst rest)"
  by (auto simp: wf_dict_def)

lemma wf_val_Mapping: "wf_val (Mapping d) = wf_dict d"
  by (simp add: wf_dict_def)

lemma wf_merge_both:
  shows "wf_dict base \<longrightarrow> wf_dict update \<longrightarrow> wf_dict (merge_settings base update)"
    and "wf_dict result \<longrightarrow> wf_dict upd \<longrightarrow> wf_dict (merge_loop result upd)"
proof (induction base update and result upd rule: merge_settings_merge_loop.induct)
  case (1 base update)
  then show ?case by (simp add: merge_settings.simps deep_copy_items)
next
  case (2 result)
  then show ?case by simp
next
  case (3 result key "value" rest)
  show ?case
  proof (intro impI)
    assume r: "wf_dict result" and u: "wf_dict ((key, value) # rest)"
    from u have v: "wf_val value" and rest: "wf_dict rest"
      using wf_dict_Cons by blast+
    let ?r = "case (map_of result key, value) of
          (Some (Mapping r), Mapping u) \<Rightarrow> dict_set result key (Mapping (merge_settings r u))
        | _ \<Rightarrow> dict_set result key (deep_copy value)"
    have "wf_dict ?r"
    proof (cases "\<exists>rm um. map_of result key = Some (Mapping rm) \<and> value = Mapping um")
      case True
      then obtain rm um where rm: "map_of result key = Some (Mapping rm)"
        and um: "value = Mapping um" by blast
      have "wf_dict rm" using wf_dict_lookup [OF r rm] by (simp only: wf_val_Mapping)
      moreover have "wf_dict um" using v um by (simp only: wf_val_Mapping)
      ultimately have "wf_dict (merge_settings rm um)"
        using "3.IH"(1) [of "map_of result key" "value" "Mapping rm" rm um] rm um by simp
      then have "wf_val (Mapping (merge_settings rm um))" by (simp only: wf_val_Mapping)
      then have "wf_dict (dict_set result key (Mapping (merge_settings rm um)))"
        using r by (rule wf_dict_set [rotated])
      then show ?thesis using rm um by simp
    next
      case False
      then have "?r = dict_set result key value"
        by (auto simp: deep_copy_id split: option.split cval.split)
      then show ?thesis using r v by (simp add: wf_dict_set)
    qed
    then show "wf_dict (merge_loop result ((key, value) # rest))"
      using "3.IH"(2) rest by simp
  qed
qed

lemma wf_merge: "wf_dict base \<Longrightarrow> wf_dict update \<Longrightarrow> wf_dict (merge_settings base update)"
  using wf_merge_both(1) by blast

lemma wf_merge_layers:
  "wf_dict start \<Longrightarrow> \<forall>l \<in> set layers. wf_dict l \<Longrightarrow> wf_dict (merge_layers start layers)"
  unfolding merge_layers_def
  by (induction layers arbitrary: start) (auto simp: wf_merge)

lemma dict_eqI:
  "distinct (map fst xs) \<Longrightarrow> map fst xs = map fst ys \<Longrightarrow>
   (\<And>k. map_of xs k = map_of ys k) \<Longrightarrow> xs = ys"
proof (induction xs arbitrary: ys)
  case Nil
  then show ?case by simp
next
  case (Cons x xs)
  then obtain y ys' where ys: "ys = y # ys'" by (cases ys) auto
  have fst: "fst x = fst y" and keys: "map fst xs = map fst ys'"
    using Cons.prems(2) ys by auto
  have "map_of (x # xs) (fst x) = map_of ys (fst x)" by (rule Cons.prems(3))
  then have xy: "x = y" using fst ys by (cases x; cases y) auto
  have "map_of xs k = map_of ys' k" for k
  proof (cases "k = fst x")
    case True
    then have k: "k \<notin> set (map fst xs)" using Cons.prems(1) by auto
    then have k': "k \<notin> set (map fst ys')" using keys by simp
    have "map_of xs k = None" using k by (simp add: map_of_eq_None_iff)
    moreover have "map_of ys' k = None" using k' by (simp add: map_of_eq_None_iff)
    ultimately show ?thesis by simp
  next
    case False
    then show ?thesis using Cons.prems(3) [of k] ys fst by (cases x; cases y) auto
  qed
  then have "xs = ys'" using Cons.IH Cons.prems(1) keys by auto
  then show ?case using xy ys by simp
qed

lemma merge_self: "wf_val v \<Longrightarrow> v = Mapping d \<Longrightarrow> merge_settings d d = d"
proof (induction v arbitrary: d)
  case (Scalar s)
  then show ?case by simp
next
  case (Seq items)
  then show ?case by simp
next
  case (Mapping kvs)
  then have d: "d = kvs" and dist: "distinct (map fst kvs)" by auto
  have keys: "map fst (merge_settings kvs kvs) = map fst kvs"
    by (simp only: keys_merge [OF dist]) simp
  have look: "map_of (merge_settings kvs kvs) k = map_of kvs k" for k
  proof (cases "map_of kvs k")
    case None
    then show ?thesis by (simp only: lookup_merge [OF dist]) simp
  next
    case (Some w)
    then have mem: "(k, w) \<in> set kvs" by (rule map_of_SomeD)
    then have wfw: "wf_val w" using Mapping.prems by auto
    show ?thesis
    proof (cases w)
      case (Mapping m)
      have "w \<in> Basic_BNFs.snds (k, w)" by simp
      from Mapping.IH [OF mem this wfw Mapping] have "merge_settings m m = m" .
      then show ?thesis using Some Mapping by (simp only: lookup_merge [OF dist]) simp
    qed (use Some in \<open>simp_all only: lookup_merge [OF dist], simp_all\<close>)
  qed
  have "merge_settings kvs kvs = kvs"
  proof (rule dict_eqI [symmetric])
    show "distinct (map fst kvs)" by (rule dist)
    show "map fst kvs = map fst (merge_settings kvs kvs)" by (simp only: keys)
    show "map_of kvs k = map_of (merge_settings kvs kvs) k" for k by (simp only: look)
  qed
  then show ?case using d by simp
qed

lemma merge_self_dict: "wf_dict d \<Longrightarrow> merge_settings d d = d"
  using merge_self [of "Mapping d" d] by (simp add: wf_dict_def)

subsection \<open>Folding layers, key by key\<close>

lemma keys_set_merge:
  "distinct (map fst update) \<Longrightarrow>
   set (map fst (merge_settings base update)) = set (map fst base) \<union> set (map fst update)"
  by (simp only: keys_merge) auto

lemma keys_merge_absorb:
  assumes "distinct (map fst update)" and "set (map fst update) \<subseteq> set (map fst base)"
  shows "map fst (merge_settings base update) = map fst base"
proof -
  have "filter (\<lambda>k. k \<notin> set (map fst base)) (map fst update) = []"
    using assms(2) by (auto simp: filter_empty_conv)
  then show ?thesis by (simp only: keys_merge [OF assms(1)]) simp
qed

lemma keys_set_merge_layers:
  "\<forall>l \<in> set layers. distinct (map fst l) \<Longrightarrow>
   set (map fst (merge_layers start layers)) =
     set (map fst start) \<union> (\<Union>l \<in> set layers. set (map fst l))"
  unfolding merge_layers_def
proof (induction layers arbitrary: start)
  case Nil
  then show ?case by simp
next
  case (Cons l layers)
  have "set (map fst (foldl merge_settings (merge_settings start l) layers)) =
      set (map fst (merge_settings start l)) \<union> (\<Union>l \<in> set layers. set (map fst l))"
    using Cons.prems by (intro Cons.IH) simp
  moreover have "set (map fst (merge_settings start l)) = set (map fst start) \<union> set (map fst l)"
    using Cons.prems by (intro keys_set_merge) simp
  ultimately show ?case by (simp only: foldl_Cons) auto
qed

lemma keys_merge_layers_absorb:
  "\<forall>l \<in> set layers. distinct (map fst l) \<and> set (map fst l) \<subseteq> set (map fst r) \<Longrightarrow>
   map fst (merge_layers r layers) = map fst r"
  unfolding merge_layers_def
proof (induction layers arbitrary: r)
  case Nil
  then show ?case by simp
next
  case (Cons l layers)
  have k: "map fst (merge_settings r l) = map fst r"
    using Cons.prems by (intro keys_merge_absorb) auto
  have "map fst (foldl merge_settings (merge_settings r l) layers) = map fst (merge_settings r l)"
    using Cons.prems by (intro Cons.IH) (simp add: k)
  then show ?case by (simp add: k)
qed

lemma lookup_merge_layers:
  "\<forall>l \<in> set layers. distinct (map fst l) \<Longrightarrow>
   map_of (merge_layers start layers) k =
     foldl merge_at (map_of start k) (map (\<lambda>l. map_of l k) layers)"
  unfolding merge_layers_def
  by (induction layers arbitrary: start) (simp_all add: lookup_merge)

lemma merge_at_not_dict: "\<not> is_dict w \<Longrightarrow> merge_at a (Some w) = Some w"
  by (cases a; cases w; cases "the a") auto

lemma merge_at_onto_not_dict: "\<forall>m. a \<noteq> Some (Mapping m) \<Longrightarrow> merge_at a (Some w) = Some w"
  by (cases a; cases w; cases "the a") auto

lemma fold_merge_at_reset:
  "\<exists>w. Some w \<in> set xs \<and> \<not> is_dict w \<Longrightarrow> foldl merge_at a xs = foldl merge_at b xs"
proof (induction xs arbitrary: a b)
  case Nil
  then show ?case by simp
next
  case (Cons x xs)
  show ?case
  proof (cases "\<exists>w. x = Some w \<and> \<not> is_dict w")
    case True
    then show ?thesis by (auto simp: merge_at_not_dict)
  next
    case False
    then have "\<exists>w. Some w \<in> set xs \<and> \<not> is_dict w" using Cons.prems by auto
    then show ?thesis using Cons.IH by simp
  qed
qed

lemma fold_merge_at_dicts:
  "\<forall>x \<in> set xs. \<forall>w. x = Some w \<longrightarrow> is_dict w \<Longrightarrow>
   foldl merge_at (Some (Mapping a)) xs = Some (Mapping (merge_layers a (mappings_of xs)))"
proof (induction xs arbitrary: a)
  case Nil
  then show ?case by (simp add: merge_layers_def)
next
  case (Cons x xs)
  show ?case
  proof (cases x)
    case None
    then show ?thesis using Cons by simp
  next
    case (Some w)
    then obtain m where "w = Mapping m" using Cons.prems by (cases w) auto
    then show ?thesis using Some Cons by (simp add: merge_layers_def)
  qed
qed

lemma fold_merge_at_dicts_start:
  "\<forall>x \<in> set xs. \<forall>w. x = Some w \<longrightarrow> is_dict w \<Longrightarrow> \<forall>m. a \<noteq> Some (Mapping m) \<Longrightarrow>
   foldl merge_at a xs =
     (case mappings_of xs of [] \<Rightarrow> a | m # ms \<Rightarrow> Some (Mapping (merge_layers m ms)))"
proof (induction xs)
  case Nil
  then show ?case by simp
next
  case (Cons x xs)
  show ?case
  proof (cases x)
    case None
    then show ?thesis using Cons by simp
  next
    case (Some w)
    then obtain m where w: "w = Mapping m" using Cons.prems by (cases w) auto
    have "merge_at a (Some w) = Some (Mapping m)"
      using Cons.prems(2) w by (simp add: merge_at_onto_not_dict)
    then show ?thesis using Some w Cons.prems(1) by (simp add: fold_merge_at_dicts)
  qed
qed

lemma size_lookup: "map_of l k = Some v \<Longrightarrow> size v < size (Mapping l)"
  by (induction l) (auto split: if_splits)

lemma layers_size_mappings:
  "layers_size (mappings_of (map (\<lambda>l. map_of l k) layers)) + length layers \<le> layers_size layers"
proof (induction layers)
  case Nil
  then show ?case by (simp add: layers_size_def)
next
  case (Cons l layers)
  show ?case
  proof (cases "\<exists>m. map_of l k = Some (Mapping m)")
    case True
    then obtain m where m: "map_of l k = Some (Mapping m)" by blast
    from size_lookup [OF m] have "size (Mapping m) < size (Mapping l)" .
    then show ?thesis using Cons m by (simp add: layers_size_def)
  next
    case False
    then have "mappings_of (map_of l k # map (\<lambda>l. map_of l k) layers)
        = mappings_of (map (\<lambda>l. map_of l k) layers)"
      by (cases "map_of l k"; cases "the (map_of l k)") auto
    then show ?thesis using Cons by (simp add: layers_size_def)
  qed
qed

lemma wf_mappings:
  "\<forall>l \<in> set layers. wf_dict l \<Longrightarrow>
   \<forall>m \<in> set (mappings_of (map (\<lambda>l. map_of l k) layers)). wf_dict m"
proof (induction layers)
  case Nil
  then show ?case by simp
next
  case (Cons l layers)
  show ?case
  proof (cases "\<exists>m. map_of l k = Some (Mapping m)")
    case True
    then obtain m where m: "map_of l k = Some (Mapping m)" by blast
    have "wf_dict l" using Cons.prems by simp
    from wf_dict_lookup [OF this m] have "wf_dict m" by (simp only: wf_val_Mapping)
    then show ?thesis using Cons m by simp
  next
    case False
    then have "mappings_of (map_of l k # map (\<lambda>l. map_of l k) layers)
        = mappings_of (map (\<lambda>l. map_of l k) layers)"
      by (cases "map_of l k"; cases "the (map_of l k)") auto
    then show ?thesis using Cons by simp
  qed
qed

lemma wf_dict_distinct: "wf_dict d \<Longrightarrow> distinct (map fst d)"
  by (simp add: wf_dict_def)

lemma merge_layers_again:
  "\<forall>l \<in> set layers. wf_dict l \<Longrightarrow> wf_dict a \<Longrightarrow>
   merge_layers (merge_layers a layers) layers = merge_layers a layers"
proof (induction "layers_size layers" arbitrary: layers a rule: less_induct)
  case less
  let ?r = "merge_layers a layers"
  have dl: "\<forall>l \<in> set layers. distinct (map fst l)"
    using less.prems(1) by (simp add: wf_dict_distinct)
  have wr: "wf_dict ?r" using less.prems by (simp add: wf_merge_layers)
  have keys: "map fst (merge_layers ?r layers) = map fst ?r"
  proof (rule keys_merge_layers_absorb, intro ballI conjI)
    fix l assume "l \<in> set layers"
    then show "distinct (map fst l)" using dl by simp
    show "set (map fst l) \<subseteq> set (map fst ?r)"
      unfolding keys_set_merge_layers [OF dl] using \<open>l \<in> set layers\<close> by blast
  qed
  have look: "map_of (merge_layers ?r layers) k = map_of ?r k" for k
  proof -
    let ?xs = "map (\<lambda>l. map_of l k) layers"
    let ?ms = "mappings_of ?xs"
    have r: "map_of ?r k = foldl merge_at (map_of a k) ?xs"
      by (rule lookup_merge_layers [OF dl])
    have rr: "map_of (merge_layers ?r layers) k = foldl merge_at (map_of ?r k) ?xs"
      by (rule lookup_merge_layers [OF dl])
    have wms: "\<forall>m \<in> set ?ms. wf_dict m" by (rule wf_mappings [OF less.prems(1)])
    show ?thesis
    proof (cases "\<exists>w. Some w \<in> set ?xs \<and> \<not> is_dict w")
      case True
      from fold_merge_at_reset [OF True] show ?thesis unfolding rr r by blast
    next
      case False
      then have maps: "\<forall>x \<in> set ?xs. \<forall>w. x = Some w \<longrightarrow> is_dict w" by blast
      show ?thesis
      proof (cases ?ms)
        case Nil
        have "foldl merge_at x ?xs = x" if "\<forall>m. x \<noteq> Some (Mapping m)" for x
          using fold_merge_at_dicts_start [OF maps that] Nil by simp
        moreover have "foldl merge_at (Some (Mapping m)) ?xs = Some (Mapping m)" for m
          using fold_merge_at_dicts [OF maps, of m] Nil by (simp add: merge_layers_def)
        ultimately have "foldl merge_at x ?xs = x" for x by (cases "\<forall>m. x \<noteq> Some (Mapping m)") auto
        then show ?thesis unfolding rr r by simp
      next
        case (Cons m1 ms')
        then have ne: "layers \<noteq> []" by auto
        have "layers_size ?ms + length layers \<le> layers_size layers"
          by (rule layers_size_mappings)
        then have small: "layers_size ?ms < layers_size layers" using ne by (cases layers) auto
        have idem: "merge_layers (merge_layers b ?ms) ?ms = merge_layers b ?ms" if "wf_dict b" for b
          using less.hyps [OF small wms that] .
        show ?thesis
        proof (cases "\<exists>m. map_of a k = Some (Mapping m)")
          case True
          then obtain m where m: "map_of a k = Some (Mapping m)" by blast
          have "wf_dict m" using wf_dict_lookup [OF less.prems(2) m] by (simp only: wf_val_Mapping)
          then show ?thesis
            unfolding rr r m by (simp only: fold_merge_at_dicts [OF maps] idem)
        next
          case False
          then have na: "\<forall>m. map_of a k \<noteq> Some (Mapping m)" by blast
          have wm1: "wf_dict m1" using wms Cons by simp
          have "merge_layers m1 ?ms = merge_layers m1 ms'"
            using Cons merge_self_dict [OF wm1] by (simp add: merge_layers_def)
          then have first: "foldl merge_at (map_of a k) ?xs = Some (Mapping (merge_layers m1 ?ms))"
            using fold_merge_at_dicts_start [OF maps na] Cons by simp
          show ?thesis
            unfolding rr r first by (simp only: fold_merge_at_dicts [OF maps] idem [OF wm1])
        qed
      qed
    qed
  qed
  show ?case
  proof (rule dict_eqI [symmetric])
    show "distinct (map fst ?r)" by (rule wf_dict_distinct [OF wr])
    show "map fst ?r = map fst (merge_layers ?r layers)" by (simp only: keys)
    show "map_of ?r k = map_of (merge_layers ?r layers) k" for k by (simp only: look)
  qed
qed

section \<open>Properties of the layer selectors\<close>

lemma set_dict_update: "set (dict_update d e) \<subseteq> set d \<union> set e"
proof (induction e arbitrary: d)
  case Nil
  then show ?case by simp
next
  case (Cons kv e)
  obtain k v where kv: "kv = (k, v)" by (cases kv)
  have "set (dict_update (dict_set d k v) e) \<subseteq> set (dict_set d k v) \<union> set e"
    by (rule Cons.IH)
  then show ?case using set_dict_set [of d k v] kv by auto
qed

lemma map_of_dict_update_other:
  "k \<notin> fst ` set e \<Longrightarrow> map_of (dict_update d e) k = map_of d k"
proof (induction e arbitrary: d)
  case Nil
  then show ?case by simp
next
  case (Cons kv e)
  obtain k' v where kv: "kv = (k', v)" by (cases kv)
  then have "k \<noteq> k'" and "k \<notin> fst ` set e" using Cons.prems by auto
  then show ?case using Cons.IH kv by (simp add: map_of_dict_set)
qed

lemma map_of_dict_update:
  "distinct (map fst e) \<Longrightarrow>
   map_of (dict_update d e) k = (case map_of e k of Some v \<Rightarrow> Some v | None \<Rightarrow> map_of d k)"
proof (induction e arbitrary: d)
  case Nil
  then show ?case by simp
next
  case (Cons kv e)
  obtain k' v where kv: "kv = (k', v)" by (cases kv)
  have d: "distinct (map fst e)" and nk: "k' \<notin> fst ` set e" using Cons.prems kv by auto
  have "map_of e k' = None" using nk by (simp add: map_of_eq_None_iff)
  then show ?case using Cons.IH [OF d] kv by (auto simp: map_of_dict_set split: option.split)
qed

lemma keys_dict_update: "fst ` set (dict_update d e) = fst ` set d \<union> fst ` set e"
proof (induction e arbitrary: d)
  case Nil
  then show ?case by simp
next
  case (Cons kv e)
  obtain k v where kv: "kv = (k, v)" by (cases kv)
  have "fst ` set (dict_set d k v) = insert k (fst ` set d)"
    using keys_dict_set [of d k v] by (auto simp flip: set_map)
  then show ?case using Cons.IH [of "dict_set d k v"] kv by auto
qed

lemma map_of_issue_step:
  "k \<notin> {''memoryOptimization'', ''enableCaching'', ''parallelProcessing'', ''maxResponseTokens''}
   \<Longrightarrow> map_of (issue_step s i) k = map_of s k"
  by (auto simp: issue_step_def map_of_dict_set)

lemma map_of_issue_steps:
  "k \<notin> {''memoryOptimization'', ''enableCaching'', ''parallelProcessing'', ''maxResponseTokens''}
   \<Longrightarrow> map_of (foldl issue_step s issues) k = map_of s k"
proof (induction issues arbitrary: s)
  case Nil
  then show ?case by simp
next
  case (Cons i issues)
  have "map_of (foldl issue_step (issue_step s i) issues) k = map_of (issue_step s i) k"
    by (rule Cons.IH [OF Cons.prems])
  then show ?case using map_of_issue_step [OF Cons.prems] by simp
qed

lemma gb_gt_16: "(16 :: rat) < of_int t / 1024 ^ 3 \<longleftrightarrow> 16 * 2 ^ 30 < t"
proof -
  have "(16 :: rat) < of_int t / 1024 ^ 3 \<longleftrightarrow> (of_int (16 * 2 ^ 30) :: rat) < of_int t"
    by (simp add: pos_less_divide_eq)
  then show ?thesis by (simp only: of_int_less_iff)
qed

lemma gb_lt_4: "of_int t / 1024 ^ 3 < (4 :: rat) \<longleftrightarrow> t < 4 * 2 ^ 30"
proof -
  have "of_int t / 1024 ^ 3 < (4 :: rat) \<longleftrightarrow> (of_int t :: rat) < of_int (4 * 2 ^ 30)"
    by (simp add: pos_divide_less_eq)
  then show ?thesis by (simp only: of_int_less_iff)
qed

lemma map_of_cpu_tier:
  "k \<notin> {''parallelProcessing'', ''backgroundProcessing'', ''optimizeAlgorithms'',
         ''simpleAlgorithms''}
   \<Longrightarrow> map_of (cpu_tier cinfo s) k = map_of s k"
  by (simp add: cpu_tier_def Let_def low_cpu_def high_cpu_def map_of_dict_set)

lemma memory_tier_high:
  "mem_total minfo = Some bytes \<Longrightarrow> 16 * 2 ^ 30 < bytes \<Longrightarrow>
   get_default (mem_percent minfo) 0 \<le> 80 \<Longrightarrow> memory_tier minfo [] = high_memory"
proof -
  assume t: "mem_total minfo = Some bytes" and big: "16 * 2 ^ 30 < bytes"
    and p: "get_default (mem_percent minfo) 0 \<le> 80"
  have gt: "(16 :: rat) < of_int bytes / 1024 ^ 3" using big by (simp only: gb_gt_16)
  then have "\<not> of_int bytes / 1024 ^ 3 < (4 :: rat)" by simp
  then have "memory_tier minfo [] = dict_update [] high_memory"
    using t p gt by (simp add: memory_tier_def Let_def not_less)
  then show ?thesis by (simp add: high_memory_def)
qed

lemma memory_tier_low:
  "80 < get_default (mem_percent minfo) 0 \<Longrightarrow> memory_tier minfo [] = low_memory"
proof -
  assume "80 < get_default (mem_percent minfo) 0"
  then have "memory_tier minfo [] = dict_update [] low_memory"
    by (simp add: memory_tier_def Let_def)
  then show ?thesis by (simp add: low_memory_def)
qed

lemma adapt_for_performance_shape:
  "system_metrics pd = Some sm \<Longrightarrow> \<not> is_empty_metrics sm \<Longrightarrow>
   adapt_for_performance pd =
     [(''cline_settings'', Mapping
        (foldl issue_step
           (cpu_tier (get_default (cpu sm) empty_cpu)
              (memory_tier (get_default (memory sm) empty_memory) []))
           (get_default (performance_issues pd) [])))]"
  by (simp add: adapt_for_performance_def Let_def)

lemma catalogue_distinct:
  "map_of project_specific_settings name = Some entry \<Longrightarrow> distinct (map fst entry)"
  by (auto simp: project_specific_settings_def python_settings_def javascript_settings_def
      typescript_settings_def web_settings_def split: if_splits)

lemma map_of_catalogue_update:
  "map_of project_specific_settings name = Some entry \<Longrightarrow>
   map_of (dict_update d entry) k = or_else (map_of entry k) (map_of d k)"
  using map_of_dict_update [OF catalogue_distinct, of name entry d k]
  by (cases "map_of entry k") simp_all

lemma web_entry: "map_of project_specific_settings ''web'' = Some web_settings"
  by (simp add: project_specific_settings_def)

lemma lookup2_single: "lookup2 [(a, Mapping m)] a k = map_of m k"
  by (simp add: lookup2_def)

section \<open>The nested mappings under the computed layers\<close>

lemma quiet_Nil: "quiet_entries []"
  by (simp add: quiet_entries_def)

lemma quiet_dict_set:
  "quiet_entries d \<Longrightarrow> k \<noteq> ''performance'' \<Longrightarrow> k \<noteq> ''codeStyle'' \<or> is_dict v \<Longrightarrow>
   quiet_entries (dict_set d k v)"
  using set_dict_set [of d k v] by (auto simp: quiet_entries_def list_all_iff)

lemma quiet_dict_update:
  "quiet_entries d \<Longrightarrow> quiet_entries e \<Longrightarrow> quiet_entries (dict_update d e)"
  using set_dict_update [of d e] by (auto simp: quiet_entries_def list_all_iff)

lemma quiet_catalogue:
  "map_of project_specific_settings name = Some entry \<Longrightarrow> quiet_entries entry"
  by (auto simp: project_specific_settings_def python_settings_def javascript_settings_def
      typescript_settings_def web_settings_def quiet_entries_def split: if_splits)

lemma quiet_tiers:
  "quiet_entries low_memory" "quiet_entries high_memory"
  "quiet_entries low_cpu" "quiet_entries high_cpu"
  by (simp_all add: quiet_entries_def low_memory_def high_memory_def low_cpu_def high_cpu_def)

lemma quiet_project_type:
  "\<exists>s. adapt_for_project_type cd = [(''cline_settings'', Mapping s)] \<and> quiet_entries s"
proof -
  let ?ps = "get_default (project_structure cd) empty_project"
  let ?s1 = "case get_default (languages ?ps) [] of
               [] \<Rightarrow> []
             | primary_language # others \<Rightarrow>
                 (case map_of project_specific_settings primary_language of
                    Some lang_settings \<Rightarrow> dict_update [] lang_settings
                  | None \<Rightarrow> [])"
  let ?s2 = "case map_of project_specific_settings (get_default (project_type ?ps) ''unknown'') of
               Some type_settings \<Rightarrow> dict_update ?s1 type_settings
             | None \<Rightarrow> ?s1"
  let ?s3 = "if is_web_project ?ps then dict_update ?s2 web_settings else ?s2"
  have shape: "adapt_for_project_type cd = [(''cline_settings'', Mapping ?s3)]"
    by (simp add: adapt_for_project_type_def Let_def web_entry)
  have q1: "quiet_entries ?s1"
    by (auto simp: quiet_Nil quiet_dict_update quiet_catalogue simp del: dict_update.simps
        split: list.split option.split)
  have q2: "quiet_entries ?s2"
    using q1 by (auto simp: quiet_dict_update quiet_catalogue simp del: dict_update.simps
        split: option.split)
  have "quiet_entries ?s3"
    using q2 quiet_catalogue [OF web_entry] by (simp add: quiet_dict_update)
  then show ?thesis using shape by blast
qed

lemma quiet_issue_steps: "quiet_entries s \<Longrightarrow> quiet_entries (foldl issue_step s issues)"
proof (induction issues arbitrary: s)
  case Nil
  then show ?case by simp
next
  case (Cons i issues)
  have "quiet_entries (issue_step s i)"
    using Cons.prems by (simp add: issue_step_def quiet_dict_set)
  then show ?case using Cons.IH by simp
qed

lemma quiet_performance:
  "\<exists>s. adapt_for_performance pd = [(''cline_settings'', Mapping s)] \<and> quiet_entries s"
proof -
  have m: "quiet_entries (memory_tier minfo [])" for minfo
    by (simp add: memory_tier_def Let_def quiet_Nil quiet_dict_update quiet_tiers
        del: dict_update.simps)
  have c: "quiet_entries (cpu_tier cinfo s)" if "quiet_entries s" for cinfo s
    using that by (simp add: cpu_tier_def Let_def quiet_dict_update quiet_tiers
        del: dict_update.simps)
  show ?thesis
    by (simp add: adapt_for_performance_def Let_def quiet_Nil quiet_issue_steps c m)
qed

lemma quiet_project_scale:
  "\<exists>s. adapt_for_project_scale cd = Inr [(''cline_settings'', Mapping s)] \<and> quiet_entries s"
  by (simp add: adapt_for_project_scale_def Let_def quiet_entries_def)

lemma quiet_usage_patterns:
  "\<exists>s. adapt_for_usage_patterns cd pd = [(''cline_settings'', Mapping s)] \<and> quiet_entries s"
  by (simp add: adapt_for_usage_patterns_def Let_def quiet_entries_def)

lemma quiet_preserved:
  "\<exists>s. preserve_user_settings cd = [(''cline_settings'', Mapping s)] \<and> quiet_entries s"
proof -
  have "quiet_entries (foldl (\<lambda>s key. case map_of cur key of
            Some v \<Rightarrow> dict_set s key v | None \<Rightarrow> s) [] preserve_keys)" for cur
    by (simp add: preserve_keys_def quiet_entries_def split: option.split)
  then show ?thesis by (simp add: preserve_user_settings_def Let_def)
qed

lemma merge_loop_other_key:
  "k \<notin> fst ` set update \<Longrightarrow> map_of (merge_loop result update) k = map_of result k"
proof (induction update arbitrary: result)
  case Nil
  then show ?case by simp
next
  case (Cons kv rest)
  obtain key "value" where kv: "kv = (key, value)" by (cases kv)
  then have ne: "k \<noteq> key" and rest: "k \<notin> fst ` set rest" using Cons.prems by auto
  show ?case
    unfolding kv merge_loop.simps
    by (simp only: Cons.IH [OF rest] merge_step_lookup) (simp add: ne)
qed

lemma merge_loop_keeps_dict:
  "map_of result k = Some (Mapping m) \<Longrightarrow> \<forall>v. (k, v) \<in> set update \<longrightarrow> is_dict v \<Longrightarrow>
   \<exists>m'. map_of (merge_loop result update) k = Some (Mapping m')"
proof (induction update arbitrary: result m)
  case Nil
  then show ?case by simp
next
  case (Cons kv rest)
  obtain key "value" where kv: "kv = (key, value)" by (cases kv)
  let ?r = "case (map_of result key, value) of
          (Some (Mapping r), Mapping u) \<Rightarrow> dict_set result key (Mapping (merge_settings r u))
        | _ \<Rightarrow> dict_set result key (deep_copy value)"
  have rest: "\<forall>v. (k, v) \<in> set rest \<longrightarrow> is_dict v" using Cons.prems(2) by simp
  have "\<exists>m1. map_of ?r k = Some (Mapping m1)"
  proof (cases "k = key")
    case True
    then have "is_dict value" using Cons.prems(2) kv by simp
    then obtain u where "value = Mapping u" by (cases "value") auto
    then show ?thesis
      unfolding merge_step_lookup using True Cons.prems(1) by simp
  next
    case False
    then show ?thesis unfolding merge_step_lookup using Cons.prems(1) by simp
  qed
  then obtain m1 where "map_of ?r k = Some (Mapping m1)" by blast
  from Cons.IH [OF this rest] show ?case by (simp add: kv)
qed

lemma merge_single:
  "merge_settings [(c, Mapping a)] [(c, Mapping b)] = [(c, Mapping (merge_settings a b))]"
  by (simp add: merge_settings_loop)

lemma quiet_merge:
  assumes "map_of cs ''performance'' = Some (Mapping p)"
    and "map_of cs ''codeStyle'' = Some (Mapping m)"
    and "quiet_entries s"
  shows "map_of (merge_settings cs s) ''performance'' = Some (Mapping p) \<and>
         (\<exists>m'. map_of (merge_settings cs s) ''codeStyle'' = Some (Mapping m'))"
proof -
  have "''performance'' \<notin> fst ` set s"
    using assms(3) by (auto simp: quiet_entries_def list_all_iff)
  then have "map_of (merge_loop cs s) ''performance'' = map_of cs ''performance''"
    by (rule merge_loop_other_key)
  moreover have "\<forall>v. (''codeStyle'', v) \<in> set s \<longrightarrow> is_dict v"
    using assms(3) by (auto simp: quiet_entries_def list_all_iff)
  then have "\<exists>m'. map_of (merge_loop cs s) ''codeStyle'' = Some (Mapping m')"
    using merge_loop_keeps_dict [OF assms(2)] by blast
  ultimately show ?thesis using assms(1) by (simp add: merge_settings_loop)
qed

lemma keeps_defaults_iff:
  "keeps_defaults t \<longleftrightarrow>
     (\<exists>cs m. t = [(''cline_settings'', Mapping cs)] \<and>
        map_of cs ''performance'' = Some (Mapping default_performance) \<and>
        map_of cs ''codeStyle'' = Some (Mapping m))"
proof
  assume k: "keeps_defaults t"
  obtain kv rest where t0: "t = kv # rest"
    using k by (cases t) (auto simp: keeps_defaults_def)
  obtain key v where kv: "kv = (key, v)" by (cases kv)
  have rest: "rest = []"
    using k t0 kv by (cases rest; cases v) (auto simp: keeps_defaults_def)
  obtain cs where v: "v = Mapping cs"
    using k t0 kv rest by (cases v) (auto simp: keeps_defaults_def)
  have t: "t = [(''cline_settings'', Mapping cs)]"
    and p: "map_of cs ''performance'' = Some (Mapping default_performance)"
    and c: "(case map_of cs ''codeStyle'' of Some v \<Rightarrow> is_dict v | None \<Rightarrow> False)"
    using k t0 kv rest v by (simp_all add: keeps_defaults_def)
  from c obtain w where w: "map_of cs ''codeStyle'' = Some w" "is_dict w"
    by (cases "map_of cs ''codeStyle''") auto
  then obtain m where "w = Mapping m" by (cases w) auto
  then show "\<exists>cs m. t = [(''cline_settings'', Mapping cs)] \<and>
        map_of cs ''performance'' = Some (Mapping default_performance) \<and>
        map_of cs ''codeStyle'' = Some (Mapping m)"
    using t p w by blast
next
  assume "\<exists>cs m. t = [(''cline_settings'', Mapping cs)] \<and>
        map_of cs ''performance'' = Some (Mapping default_performance) \<and>
        map_of cs ''codeStyle'' = Some (Mapping m)"
  then show "keeps_defaults t" by (auto simp: keeps_defaults_def)
qed

lemma keeps_defaults_start: "keeps_defaults (deep_copy_dict default_settings)"
  by (simp add: deep_copy_items) (simp add: keeps_defaults_def default_settings_def)

lemma keeps_defaults_merge:
  assumes "keeps_defaults t" and "layer = [(''cline_settings'', Mapping s)]" and "quiet_entries s"
  shows "keeps_defaults (merge_settings t layer)"
proof -
  from assms(1) obtain cs m where t: "t = [(''cline_settings'', Mapping cs)]"
    and p: "map_of cs ''performance'' = Some (Mapping default_performance)"
    and c: "map_of cs ''codeStyle'' = Some (Mapping m)"
    unfolding keeps_defaults_iff by blast
  have "merge_settings t layer = [(''cline_settings'', Mapping (merge_settings cs s))]"
    unfolding t assms(2) by (rule merge_single)
  then show ?thesis
    unfolding keeps_defaults_iff using quiet_merge [OF p c assms(3)] by blast
qed

lemma keys_update_subset:
  "fst ` set d \<subseteq> K \<Longrightarrow> fst ` set e \<subseteq> K \<Longrightarrow> fst ` set (dict_update d e) \<subseteq> K"
  by (simp add: keys_dict_update)

lemma vscode_config_keys:
  assumes "map_of t ''cline_settings'' = Some (Mapping cs)"
    and "map_of cs ''performance'' = Some (Mapping default_performance)"
    and "map_of cs ''codeStyle'' = Some (Mapping m)"
  shows "\<exists>v. generate_vscode_config t cd = Inr v \<and> fst ` set v \<subseteq> set editor_keys"
proof -
  let ?langs = "get_default (languages (get_default (project_structure cd) empty_project)) []"
  let ?v1 = "if ''python'' \<in> set ?langs
             then dict_update []
                    [(''python.defaultInterpreterPath'', VStr ''./venv/bin/python''),
                     (''python.linting.enabled'', VBool True),
                     (''python.linting.pylintEnabled'', VBool True),
                     (''python.formatting.provider'', VStr ''black''),
                     (''python.testing.pytestEnabled'', VBool True)]
             else []"
  let ?v2 = "if ''javascript'' \<in> set ?langs \<or> ''typescript'' \<in> set ?langs
             then dict_update ?v1
                    [(''eslint.enable'', VBool True),
                     (''prettier.enable'', VBool True),
                     (''javascript.preferences.includePackageJsonAutoImports'', VStr ''auto''),
                     (''typescript.preferences.includePackageJsonAutoImports'', VStr ''auto'')]
             else ?v1"
  let ?v3 = "if m \<noteq> []
             then dict_update ?v2
                    [(''editor.tabSize'', get_default (map_of m ''indentation'') (VInt 4)),
                     (''editor.insertSpaces'', VBool True),
                     (''editor.detectIndentation'', VBool False)]
             else ?v2"
  have memopt: "\<not> truthy (get_default (map_of default_performance ''memoryOptimization'')
      (Scalar SNone))"
    by (simp add: default_performance_def)
  have result: "generate_vscode_config t cd = Inr ?v3"
    unfolding generate_vscode_config_def Let_def
    by (simp add: assms memopt del: dict_update.simps)
  have e1: "fst ` set [(''python.defaultInterpreterPath'', VStr ''./venv/bin/python''),
                     (''python.linting.enabled'', VBool True),
                     (''python.linting.pylintEnabled'', VBool True),
                     (''python.formatting.provider'', VStr ''black''),
                     (''python.testing.pytestEnabled'', VBool True)] \<subseteq> set editor_keys"
    by (simp add: editor_keys_def)
  have e2: "fst ` set [(''eslint.enable'', VBool True),
                     (''prettier.enable'', VBool True),
                     (''javascript.preferences.includePackageJsonAutoImports'', VStr ''auto''),
                     (''typescript.preferences.includePackageJsonAutoImports'', VStr ''auto'')]
      \<subseteq> set editor_keys"
    by (simp add: editor_keys_def)
  have e3: "fst ` set [(''editor.tabSize'', get_default (map_of m ''indentation'') (VInt 4)),
                     (''editor.insertSpaces'', VBool True),
                     (''editor.detectIndentation'', VBool False)] \<subseteq> set editor_keys"
    by (simp add: editor_keys_def)
  have e0: "fst ` set ([] :: dict) \<subseteq> set editor_keys" by simp
  have k1: "fst ` set ?v1 \<subseteq> set editor_keys"
  proof (cases "''python'' \<in> set ?langs")
    case True
    show ?thesis by (simp only: if_P [OF True]) (rule keys_update_subset [OF e0 e1])
  next
    case False
    show ?thesis by (simp only: if_not_P [OF False]) (rule e0)
  qed
  have k2: "fst ` set ?v2 \<subseteq> set editor_keys"
  proof (cases "''javascript'' \<in> set ?langs \<or> ''typescript'' \<in> set ?langs")
    case True
    show ?thesis by (simp only: if_P [OF True]) (rule keys_update_subset [OF k1 e2])
  next
    case False
    show ?thesis by (simp only: if_not_P [OF False]) (rule k1)
  qed
  have k3: "fst ` set ?v3 \<subseteq> set editor_keys"
  proof (cases "m \<noteq> []")
    case True
    show ?thesis by (simp only: if_P [OF True]) (rule keys_update_subset [OF k2 e3])
  next
    case False
    show ?thesis by (simp only: if_not_P [OF False]) (rule k2)
  qed
  from result k3 show ?thesis by blast
qed

lemma adaptive_config_shape:
  "\<exists>c5 v. keeps_defaults c5 \<and> fst ` set v \<subseteq> set editor_keys \<and>
     generate_vscode_config c5 cd = Inr v \<and>
     generate_adaptive_config cd pd = Inr (dict_update c5 v)"
proof -
  obtain s1 where l1: "adapt_for_project_type cd = [(''cline_settings'', Mapping s1)]"
    and q1: "quiet_entries s1" using quiet_project_type by blast
  obtain s2 where l2: "adapt_for_performance pd = [(''cline_settings'', Mapping s2)]"
    and q2: "quiet_entries s2" using quiet_performance by blast
  obtain s3 where l3: "adapt_for_project_scale cd = Inr [(''cline_settings'', Mapping s3)]"
    and q3: "quiet_entries s3" using quiet_project_scale by blast
  obtain s4 where l4: "adapt_for_usage_patterns cd pd = [(''cline_settings'', Mapping s4)]"
    and q4: "quiet_entries s4" using quiet_usage_patterns by blast
  obtain s5 where l5: "preserve_user_settings cd = [(''cline_settings'', Mapping s5)]"
    and q5: "quiet_entries s5" using quiet_preserved by blast
  let ?c0 = "deep_copy_dict default_settings"
  let ?c1 = "merge_settings ?c0 (adapt_for_project_type cd)"
  let ?c2 = "merge_settings ?c1 (adapt_for_performance pd)"
  let ?c3 = "merge_settings ?c2 [(''cline_settings'', Mapping s3)]"
  let ?c4 = "merge_settings ?c3 (adapt_for_usage_patterns cd pd)"
  let ?c5 = "merge_settings ?c4 (preserve_user_settings cd)"
  have k1: "keeps_defaults ?c1" by (rule keeps_defaults_merge [OF keeps_defaults_start l1 q1])
  have k2: "keeps_defaults ?c2" by (rule keeps_defaults_merge [OF k1 l2 q2])
  have k3: "keeps_defaults ?c3" by (rule keeps_defaults_merge [OF k2 refl q3])
  have k4: "keeps_defaults ?c4" by (rule keeps_defaults_merge [OF k3 l4 q4])
  have k5: "keeps_defaults ?c5" by (rule keeps_defaults_merge [OF k4 l5 q5])
  from k5 obtain cs m where c5: "?c5 = [(''cline_settings'', Mapping cs)]"
    and p: "map_of cs ''performance'' = Some (Mapping default_performance)"
    and c: "map_of cs ''codeStyle'' = Some (Mapping m)"
    unfolding keeps_defaults_iff by blast
  have "map_of ?c5 ''cline_settings'' = Some (Mapping cs)" by (simp only: c5) simp
  from vscode_config_keys [OF this p c]
  obtain v where v: "generate_vscode_config ?c5 cd = Inr v" "fst ` set v \<subseteq> set editor_keys"
    by blast
  have "generate_adaptive_config cd pd = Inr (dict_update ?c5 v)"
    unfolding generate_adaptive_config_def Let_def l3 by (simp add: v(1))
  with k5 v show ?thesis by blast
qed

lemma adaptive_config_returns:
  "\<exists>t. generate_adaptive_config cd pd = Inr t"
  using adaptive_config_shape [of cd pd] by blast

section \<open>Properties of the deduplication\<close>

lemma loop_append:
  "remove_duplicates_loop lower strip seen unique_rules rules =
     unique_rules @ remove_duplicates_loop lower strip seen [] rules"
proof (induction rules arbitrary: seen unique_rules)
  case Nil
  then show ?case by simp
next
  case (Cons rule rest)
  show ?case
    using Cons.IH [of "insert (strip (lower rule)) seen" "unique_rules @ [rule]"]
      Cons.IH [of "insert (strip (lower rule)) seen" "[rule]"]
      Cons.IH [of seen unique_rules]
    by (simp add: Let_def)
qed

lemma loop_Cons:
  "remove_duplicates_loop lower strip seen [] (rule # rest) =
     (if strip (lower rule) \<notin> seen
      then rule # remove_duplicates_loop lower strip (insert (strip (lower rule)) seen) [] rest
      else remove_duplicates_loop lower strip seen [] rest)"
  using loop_append [of lower strip "insert (strip (lower rule)) seen" "[rule]" rest]
  by (simp add: Let_def)

declare remove_duplicates_loop.simps(2) [simp del]

lemma loop_norms:
  "set (map (\<lambda>r. strip (lower r)) (remove_duplicates_loop lower strip seen [] rules)) =
     set (map (\<lambda>r. strip (lower r)) rules) - seen"
proof (induction rules arbitrary: seen)
  case Nil
  then show ?case by simp
next
  case (Cons rule rest)
  show ?case
    using Cons.IH [of "insert (strip (lower rule)) seen"] Cons.IH [of seen]
    by (auto simp only: loop_Cons list.map list.set split: if_splits)
qed

lemma loop_distinct:
  "distinct (map (\<lambda>r. strip (lower r)) (remove_duplicates_loop lower strip seen [] rules))"
proof (induction rules arbitrary: seen)
  case Nil
  then show ?case by simp
next
  case (Cons rule rest)
  have "strip (lower rule) \<notin> set (map (\<lambda>r. strip (lower r))
      (remove_duplicates_loop lower strip (insert (strip (lower rule)) seen) [] rest))"
    by (simp only: loop_norms) simp
  then show ?case
    using Cons.IH [of "insert (strip (lower rule)) seen"] Cons.IH [of seen]
    by (simp only: loop_Cons list.map distinct.simps split: if_splits) simp
qed

lemma loop_subseq: "subseq (remove_duplicates_loop lower strip seen [] rules) rules"
proof (induction rules arbitrary: seen)
  case Nil
  then show ?case by simp
next
  case (Cons rule rest)
  show ?case
    using Cons.IH [of "insert (strip (lower rule)) seen"] Cons.IH [of seen]
    by (simp only: loop_Cons split: if_splits) auto
qed

lemma loop_first:
  "r \<in> set (remove_duplicates_loop lower strip seen [] rules) \<Longrightarrow>
   find (\<lambda>x. strip (lower x) = strip (lower r)) rules = Some r"
proof (induction rules arbitrary: seen)
  case Nil
  then show ?case by simp
next
  case (Cons rule rest)
  show ?case
  proof (cases "strip (lower rule) \<notin> seen")
    case True
    then have mem: "r = rule \<or>
        r \<in> set (remove_duplicates_loop lower strip (insert (strip (lower rule)) seen) [] rest)"
      using Cons.prems by (simp add: loop_Cons)
    show ?thesis
    proof (cases "r = rule")
      case True
      then show ?thesis by simp
    next
      case False
      then have in_rest:
        "r \<in> set (remove_duplicates_loop lower strip (insert (strip (lower rule)) seen) [] rest)"
        using mem by simp
      then have "strip (lower r) \<in> set (map (\<lambda>r. strip (lower r))
          (remove_duplicates_loop lower strip (insert (strip (lower rule)) seen) [] rest))"
        by (simp only: set_map) (rule imageI)
      then have "strip (lower r) \<noteq> strip (lower rule)"
        by (simp only: loop_norms) auto
      then show ?thesis using Cons.IH [OF in_rest] by simp
    qed
  next
    case False
    then have in_rest: "r \<in> set (remove_duplicates_loop lower strip seen [] rest)"
      using Cons.prems by (simp add: loop_Cons)
    then have "strip (lower r) \<in> set (map (\<lambda>r. strip (lower r))
        (remove_duplicates_loop lower strip seen [] rest))"
      by (simp only: set_map) (rule imageI)
    then have "strip (lower r) \<notin> seen" by (simp only: loop_norms) auto
    then have "strip (lower r) \<noteq> strip (lower rule)" using False by auto
    then show ?thesis using Cons.IH [OF in_rest] by simp
  qed
qed

lemma loop_fixed:
  "distinct (map (\<lambda>r. strip (lower r)) rules) \<Longrightarrow>
   set (map (\<lambda>r. strip (lower r)) rules) \<inter> seen = {} \<Longrightarrow>
   remove_duplicates_loop lower strip seen [] rules = rules"
proof (induction rules arbitrary: seen)
  case Nil
  then show ?case by simp
next
  case (Cons rule rest)
  have fresh: "strip (lower rule) \<notin> seen" using Cons.prems(2) by auto
  have d: "distinct (map (\<lambda>r. strip (lower r)) rest)" using Cons.prems(1) by simp
  have "set (map (\<lambda>r. strip (lower r)) rest) \<inter> insert (strip (lower rule)) seen = {}"
    using Cons.prems by auto
  from Cons.IH [OF d this] show ?case using fresh by (simp add: loop_Cons)
qed

section \<open>The store under copy and merge\<close>

lemma extends_iff:
  "extends h h' \<longleftrightarrow> length h \<le> length h' \<and> (\<forall>a < length h. h' ! a = h ! a)"
  by (auto simp: extends_def list_eq_iff_nth_eq)

lemma fresh_region_iff:
  "fresh_region h h' \<longleftrightarrow>
     (\<forall>a. length h \<le> a \<and> a < length h' \<longrightarrow> refs_obj (h' ! a) \<subseteq> {length h..<length h'})"
proof
  assume f: "fresh_region h h'"
  show "\<forall>a. length h \<le> a \<and> a < length h' \<longrightarrow> refs_obj (h' ! a) \<subseteq> {length h..<length h'}"
  proof (intro allI impI)
    fix a assume a: "length h \<le> a \<and> a < length h'"
    then have "h' ! a = drop (length h) h' ! (a - length h)" by simp
    moreover have "a - length h < length (drop (length h) h')" using a by auto
    ultimately have "h' ! a \<in> set (drop (length h) h')" by (metis nth_mem)
    then show "refs_obj (h' ! a) \<subseteq> {length h..<length h'}"
      using f by (simp add: fresh_region_def list_all_iff)
  qed
next
  assume r: "\<forall>a. length h \<le> a \<and> a < length h' \<longrightarrow> refs_obj (h' ! a) \<subseteq> {length h..<length h'}"
  show "fresh_region h h'"
    unfolding fresh_region_def list_all_iff
  proof
    fix ob assume "ob \<in> set (drop (length h) h')"
    then obtain i where i: "i < length (drop (length h) h')" "ob = drop (length h) h' ! i"
      by (metis in_set_conv_nth)
    then have "ob = h' ! (length h + i)" and "length h + i < length h'" by auto
    then show "refs_obj ob \<subseteq> {length h..<length h'}" using r by auto
  qed
qed

lemma extends_refl: "extends h h"
  by (simp add: extends_def)

lemma fresh_region_refl: "fresh_region h h"
  by (simp add: fresh_region_def)

lemma extends_trans: "extends h h1 \<Longrightarrow> extends h1 h2 \<Longrightarrow> extends h h2"
  by (auto simp: extends_iff)

lemma fresh_region_trans:
  assumes "extends h h1" and "fresh_region h h1" and "extends h1 h2" and "fresh_region h1 h2"
  shows "fresh_region h h2"
  unfolding fresh_region_iff
proof (intro allI impI)
  fix a assume a: "length h \<le> a \<and> a < length h2"
  have l: "length h \<le> length h1" "length h1 \<le> length h2"
    using assms(1,3) by (auto simp: extends_iff)
  show "refs_obj (h2 ! a) \<subseteq> {length h..<length h2}"
  proof (cases "a < length h1")
    case True
    then have "h2 ! a = h1 ! a" using assms(3) by (simp add: extends_iff)
    moreover have "refs_obj (h1 ! a) \<subseteq> {length h..<length h1}"
      using assms(2) a True by (simp add: fresh_region_iff)
    ultimately show ?thesis using l by auto
  next
    case False
    then have "refs_obj (h2 ! a) \<subseteq> {length h1..<length h2}"
      using assms(4) a by (simp add: fresh_region_iff)
    then show ?thesis using l by auto
  qed
qed

lemma extends_append: "extends h (h @ obs)"
  by (simp add: extends_def)

lemma thread_frame:
  assumes step: "\<And>h x h' y. f h x = Some (h', y) \<Longrightarrow>
      extends h h' \<and> fresh_region h h' \<and> refs_val y \<subseteq> {length h..<length h'}"
  shows "thread f h xs = Some (h', ys) \<Longrightarrow>
      extends h h' \<and> fresh_region h h' \<and> length ys = length xs \<and>
      (\<forall>y \<in> set ys. refs_val y \<subseteq> {length h..<length h'})"
proof (induction xs arbitrary: h h' ys)
  case Nil
  then show ?case by (simp add: extends_refl fresh_region_refl)
next
  case (Cons x xs)
  from Cons.prems obtain h1 y ys' where
    f: "f h x = Some (h1, y)" and t: "thread f h1 xs = Some (h', ys')" and ys: "ys = y # ys'"
    by (auto split: option.splits)
  from step [OF f] have 1: "extends h h1" "fresh_region h h1"
    "refs_val y \<subseteq> {length h..<length h1}" by simp_all
  from Cons.IH [OF t] have 2: "extends h1 h'" "fresh_region h1 h'" "length ys' = length xs"
    "\<forall>y \<in> set ys'. refs_val y \<subseteq> {length h1..<length h'}" by simp_all
  have l: "length h \<le> length h1" "length h1 \<le> length h'"
    using 1(1) 2(1) by (auto simp: extends_iff)
  have "\<forall>y \<in> set ys. refs_val y \<subseteq> {length h..<length h'}"
    using 1(3) 2(4) l ys by fastforce
  then show ?case
    using extends_trans [OF 1(1) 2(1)] fresh_region_trans [OF 1(1,2) 2(1,2)] 2(3) ys by simp
qed

lemma alloc_frame:
  assumes "extends h h1" and "fresh_region h h1" and "refs_obj ob \<subseteq> {length h..<length h1}"
  shows "extends h (h1 @ [ob]) \<and> fresh_region h (h1 @ [ob]) \<and>
         refs_val (PRef (length h1)) \<subseteq> {length h..<length (h1 @ [ob])}"
proof -
  have l: "length h \<le> length h1" using assms(1) by (simp add: extends_iff)
  have e: "extends h (h1 @ [ob])"
    using assms(1) by (auto simp: extends_iff nth_append)
  have "fresh_region h (h1 @ [ob])"
    unfolding fresh_region_iff
  proof (intro allI impI)
    fix a assume a: "length h \<le> a \<and> a < length (h1 @ [ob])"
    show "refs_obj ((h1 @ [ob]) ! a) \<subseteq> {length h..<length (h1 @ [ob])}"
    proof (cases "a < length h1")
      case True
      then have "refs_obj (h1 ! a) \<subseteq> {length h..<length h1}"
        using assms(2) a by (simp add: fresh_region_iff)
      then show ?thesis using True by (auto simp: nth_append)
    next
      case False
      then have "a = length h1" using a by simp
      then show ?thesis using assms(3) by auto
    qed
  qed
  then show ?thesis using e l by simp
qed

lemma deep_copy_frame:
  "deep_copy_h n h v = Some (h', v') \<Longrightarrow>
   extends h h' \<and> fresh_region h h' \<and> refs_val v' \<subseteq> {length h..<length h'}"
proof (induction n arbitrary: h v h' v')
  case 0
  then show ?case by simp
next
  case (Suc n)
  have threaded: "extends h h' \<and> fresh_region h h' \<and> length ys = length xs \<and>
      (\<forall>y \<in> set ys. refs_val y \<subseteq> {length h..<length h'})"
    if "thread (deep_copy_h n) h xs = Some (h', ys)" for h xs h' ys
    by (rule thread_frame [where f = "deep_copy_h n", OF _ that]) (rule Suc.IH)
  show ?case
  proof (cases v)
    case (PScalar s)
    then show ?thesis using Suc.prems by (auto simp: extends_refl fresh_region_refl)
  next
    case (PRef a)
    then have a: "a < length h" using Suc.prems by (auto split: if_splits)
    show ?thesis
    proof (cases "h ! a")
      case (ODict kvs)
      then obtain h1 vs where t: "thread (deep_copy_h n) h (map snd kvs) = Some (h1, vs)"
        and r: "h' = h1 @ [ODict (zip (map fst kvs) vs)]" "v' = PRef (length h1)"
        using Suc.prems PRef a by (auto split: option.splits)
      from threaded [OF t] have 1: "extends h h1" "fresh_region h h1"
        "\<forall>y \<in> set vs. refs_val y \<subseteq> {length h..<length h1}" by simp_all
      have "set (map snd (zip (map fst kvs) vs)) \<subseteq> set vs"
        by (auto dest: set_zip_rightD)
      then have "refs_obj (ODict (zip (map fst kvs) vs)) \<subseteq> {length h..<length h1}"
        using 1(3) by fastforce
      from alloc_frame [OF 1(1,2) this] show ?thesis unfolding r by simp
    next
      case (OList xs)
      then obtain h1 vs where t: "thread (deep_copy_h n) h xs = Some (h1, vs)"
        and r: "h' = h1 @ [OList vs]" "v' = PRef (length h1)"
        using Suc.prems PRef a by (auto split: option.splits)
      from threaded [OF t] have 1: "extends h h1" "fresh_region h h1"
        "\<forall>y \<in> set vs. refs_val y \<subseteq> {length h..<length h1}" by simp_all
      have "refs_obj (OList vs) \<subseteq> {length h..<length h1}"
        using 1(3) by fastforce
      from alloc_frame [OF 1(1,2) this] show ?thesis unfolding r by simp
    qed
  qed
qed

lemma dict_at_Some: "dict_at h a = Some kvs \<longleftrightarrow> a < length h \<and> h ! a = ODict kvs"
  by (auto simp: dict_at_def split: obj.splits)

lemma refs_dict_set:
  "refs_obj (ODict (dict_set kvs key v)) \<subseteq> refs_obj (ODict kvs) \<union> refs_val v"
  using set_dict_set [of kvs key v] by fastforce

lemma store_frame:
  assumes "extends h0 h1" and "fresh_region h0 h1" and "length h0 \<le> r" and "r < length h1"
    and "refs_obj ob \<subseteq> {length h0..<length h1}"
  shows "extends h0 (h1[r := ob]) \<and> fresh_region h0 (h1[r := ob])"
proof -
  have "extends h0 (h1[r := ob])"
    using assms(1,3) by (auto simp: extends_iff)
  moreover have "fresh_region h0 (h1[r := ob])"
    unfolding fresh_region_iff
  proof (intro allI impI)
    fix a assume a: "length h0 \<le> a \<and> a < length (h1[r := ob])"
    show "refs_obj (h1[r := ob] ! a) \<subseteq> {length h0..<length (h1[r := ob])}"
    proof (cases "a = r")
      case True
      then show ?thesis using assms(4,5) by simp
    next
      case False
      then have "refs_obj (h1 ! a) \<subseteq> {length h0..<length h1}"
        using assms(2) a by (simp add: fresh_region_iff)
      then show ?thesis using False by simp
    qed
  qed
  ultimately show ?thesis by simp
qed

lemma merge_loop_frame:
  assumes rec: "\<And>h a b h' m. rec h a b = Some (h', m) \<Longrightarrow>
      extends h h' \<and> fresh_region h h' \<and> length h \<le> m \<and> m < length h'"
    and copy: "\<And>h v h' v'. copy h v = Some (h', v') \<Longrightarrow>
      extends h h' \<and> fresh_region h h' \<and> refs_val v' \<subseteq> {length h..<length h'}"
  shows "merge_loop_h rec copy h r items = Some h' \<Longrightarrow>
      extends h0 h \<Longrightarrow> fresh_region h0 h \<Longrightarrow> length h0 \<le> r \<Longrightarrow> r < length h \<Longrightarrow>
      extends h0 h' \<and> fresh_region h0 h' \<and> r < length h'"
proof (induction items arbitrary: h)
  case Nil
  then show ?case by simp
next
  case (Cons kv rest)
  obtain key "value" where kv: "kv = (key, value)" by (cases kv)
  let ?sub = "case (map_of (the (dict_at h r)) key, value) of
                (Some (PRef a), PRef b) \<Rightarrow>
                  (if dict_at h a \<noteq> None \<and> dict_at h b \<noteq> None
                   then (case rec h a b of
                           None \<Rightarrow> None
                         | Some (h1, m) \<Rightarrow> Some (h1, PRef m))
                   else copy h value)
              | _ \<Rightarrow> copy h value"
  from Cons.prems(1) obtain ritems h1 v ritems1 where
    sub: "?sub = Some (h1, v)" and at1: "dict_at h1 r = Some ritems1"
    and rest: "merge_loop_h rec copy (h1[r := ODict (dict_set ritems1 key v)]) r rest = Some h'"
    unfolding kv by (auto split: option.splits)
  have step: "extends h h1 \<and> fresh_region h h1 \<and> refs_val v \<subseteq> {length h..<length h1}"
  proof (cases "\<exists>a b. map_of (the (dict_at h r)) key = Some (PRef a) \<and> value = PRef b \<and>
      dict_at h a \<noteq> None \<and> dict_at h b \<noteq> None")
    case True
    then obtain a b where ab: "map_of (the (dict_at h r)) key = Some (PRef a)" "value = PRef b"
      "dict_at h a \<noteq> None" "dict_at h b \<noteq> None" by blast
    then obtain m where m: "rec h a b = Some (h1, m)" "v = PRef m"
      using sub by (auto split: option.splits)
    from rec [OF m(1)] show ?thesis using m(2) by auto
  next
    case False
    then have "copy h value = Some (h1, v)"
      using sub by (auto split: option.splits pval.splits if_splits)
    from copy [OF this] show ?thesis .
  qed
  then have e1: "extends h h1" and f1: "fresh_region h h1"
    and v: "refs_val v \<subseteq> {length h..<length h1}" by simp_all
  have e01: "extends h0 h1" by (rule extends_trans [OF Cons.prems(2) e1])
  have f01: "fresh_region h0 h1" by (rule fresh_region_trans [OF Cons.prems(2,3) e1 f1])
  have l: "length h0 \<le> length h" "length h \<le> length h1"
    using Cons.prems(2) e1 by (auto simp: extends_iff)
  have r1: "r < length h1" using Cons.prems(5) l by simp
  have "refs_obj (h1 ! r) \<subseteq> {length h0..<length h1}"
    using f01 Cons.prems(4) r1 by (simp add: fresh_region_iff)
  then have "refs_obj (ODict ritems1) \<subseteq> {length h0..<length h1}"
    using at1 by (simp add: dict_at_Some)
  moreover have "{length h..<length h1} \<subseteq> {length h0..<length h1}" using l by auto
  ultimately have "refs_obj (ODict (dict_set ritems1 key v)) \<subseteq> {length h0..<length h1}"
    using refs_dict_set [of ritems1 key v] v by blast
  from store_frame [OF e01 f01 Cons.prems(4) r1 this]
  have "extends h0 (h1[r := ODict (dict_set ritems1 key v)])"
    "fresh_region h0 (h1[r := ODict (dict_set ritems1 key v)])" by simp_all
  from Cons.IH [OF rest this Cons.prems(4)] r1 show ?case by simp
qed

lemma merge_frame:
  "merge_h n h base update = Some (h', r) \<Longrightarrow>
   extends h h' \<and> fresh_region h h' \<and> length h \<le> r \<and> r < length h'"
proof (induction n arbitrary: h base update h' r)
  case 0
  then show ?case by simp
next
  case (Suc n)
  from Suc.prems obtain h1 uitems where
    c: "deep_copy_h n h (PRef base) = Some (h1, PRef r)"
    and l: "merge_loop_h (merge_h n) (deep_copy_h n) h1 r uitems = Some h'"
    by (auto split: option.splits pval.splits prod.splits)
  from deep_copy_frame [OF c] have 1: "extends h h1" "fresh_region h h1"
    "length h \<le> r" "r < length h1" by simp_all
  have "extends h h' \<and> fresh_region h h' \<and> r < length h'"
    by (rule merge_loop_frame [where rec = "merge_h n" and copy = "deep_copy_h n",
          OF _ _ l 1]) (rule Suc.IH, assumption, rule deep_copy_frame, assumption)
  then show ?case using 1(3) by simp
qed

lemma reach_fresh:
  assumes "fresh_region h h'" and "length h \<le> r"
  shows "reach h' r \<inter> {..<length h} = {}"
proof -
  have "a \<in> reach h' r \<Longrightarrow> length h \<le> a" for a
  proof (induction rule: reach.induct)
    case root
    then show ?case by (rule assms(2))
  next
    case (step a b)
    then have "refs_obj (h' ! a) \<subseteq> {length h..<length h'}"
      using assms(1) by (simp add: fresh_region_iff)
    then show ?case using step.hyps(3) by auto
  qed
  then show ?thesis by fastforce
qed

lemma repr_in_agree:
  "repr_in S h v t \<Longrightarrow> (\<And>a. a \<in> S \<Longrightarrow> a < length h \<Longrightarrow> a < length h' \<and> h' ! a = h ! a) \<Longrightarrow>
   repr_in S h' v t"
proof (induction rule: repr_in.induct)
  case (scalar s)
  show ?case by (rule repr_in.scalar)
next
  case (seq a xs ts)
  have "list_all2 (repr_in S h') xs ts"
    using seq.IH seq.prems by (auto elim!: list_all2_mono)
  then show ?case using seq.hyps seq.prems by (auto intro: repr_in.seq)
next
  case (mapping a kvs kts)
  have "list_all2 (repr_in S h') (map snd kvs) (map snd kts)"
    using mapping.IH mapping.prems by (auto elim!: list_all2_mono)
  then show ?case using mapping.hyps mapping.prems by (auto intro: repr_in.mapping)
qed

lemma repr_extends: "repr h v t \<Longrightarrow> extends h h' \<Longrightarrow> repr h' v t"
  unfolding repr_def by (erule repr_in_agree) (auto simp: extends_iff)

lemma merge_layers_frame:
  "merge_layers_h n h cur layers = Some (h', r) \<Longrightarrow>
   extends h h' \<and> (layers \<noteq> [] \<longrightarrow> length h \<le> r \<and> reach h' r \<inter> {..<length h} = {})"
proof (induction layers arbitrary: h cur)
  case Nil
  then show ?case by (simp add: extends_refl)
next
  case (Cons layer layers)
  from Cons.prems obtain h1 r1 where m: "merge_h n h cur layer = Some (h1, r1)"
    and rest: "merge_layers_h n h1 r1 layers = Some (h', r)"
    by (auto split: option.splits)
  from merge_frame [OF m] have 1: "extends h h1" "fresh_region h h1" "length h \<le> r1"
    "r1 < length h1" by simp_all
  from Cons.IH [OF rest] have 2: "extends h1 h'"
    "layers \<noteq> [] \<longrightarrow> length h1 \<le> r \<and> reach h' r \<inter> {..<length h1} = {}" by simp_all
  have l: "length h \<le> length h1" using 1(1) by (simp add: extends_iff)
  have "length h \<le> r \<and> reach h' r \<inter> {..<length h} = {}"
  proof (cases "layers = []")
    case True
    then have "h' = h1" "r = r1" using rest by simp_all
    then show ?thesis using reach_fresh [OF 1(2,3)] 1(3) by simp
  next
    case False
    then have "length h1 \<le> r" "reach h' r \<inter> {..<length h1} = {}" using 2(2) by simp_all
    then show ?thesis using l by auto
  qed
  then show ?case using extends_trans [OF 1(1) 2(1)] by simp
qed

section \<open>The store and the trees\<close>

lemma fold_max_le: "fold max xs (a::nat) \<le> m \<longleftrightarrow> a \<le> m \<and> (\<forall>x \<in> set xs. x \<le> m)"
  by (induction xs arbitrary: a) auto

lemma depth_Mapping_le: "depth (Mapping kvs) \<le> Suc m \<longleftrightarrow> (\<forall>kv \<in> set kvs. depth (snd kv) \<le> m)"
  by (simp add: fold_max_le)

lemma depth_Seq_le: "depth (Seq ts) \<le> Suc m \<longleftrightarrow> (\<forall>t \<in> set ts. depth t \<le> m)"
  by (simp add: fold_max_le)

lemma depth_Mapping_pos: "0 < depth (Mapping kvs)"
  by simp

lemma depth_lookup: "map_of kvs k = Some v \<Longrightarrow> Suc (depth v) \<le> depth (Mapping kvs)"
proof -
  assume "map_of kvs k = Some v"
  then have "(k, v) \<in> set kvs" by (rule map_of_SomeD)
  moreover obtain m where m: "depth (Mapping kvs) = Suc m" by simp
  ultimately have "depth v \<le> m" using depth_Mapping_le [of kvs m] by fastforce
  then show ?thesis using m by simp
qed

lemma depth_dict_set:
  "depth (Mapping d) \<le> Suc m \<Longrightarrow> depth v \<le> m \<Longrightarrow> depth (Mapping (dict_set d k v)) \<le> Suc m"
  unfolding depth_Mapping_le using set_dict_set [of d k v] by fastforce

lemma depth_merge_both:
  shows "depth (Mapping base) \<le> Suc m \<longrightarrow> depth (Mapping update) \<le> Suc m \<longrightarrow>
           depth (Mapping (merge_settings base update)) \<le> Suc m"
    and "depth (Mapping result) \<le> Suc m \<longrightarrow> depth (Mapping upd) \<le> Suc m \<longrightarrow>
           depth (Mapping (merge_loop result upd)) \<le> Suc m"
proof (induction base update and result upd arbitrary: m and m
    rule: merge_settings_merge_loop.induct)
  case (1 base update)
  then show ?case by (simp add: merge_settings.simps deep_copy_items)
next
  case (2 result)
  then show ?case by simp
next
  case (3 result key "value" rest)
  show ?case
  proof (intro impI)
    assume r: "depth (Mapping result) \<le> Suc m" and u: "depth (Mapping ((key, value) # rest)) \<le> Suc m"
    from u have v: "depth value \<le> m" and rest: "depth (Mapping rest) \<le> Suc m"
      unfolding depth_Mapping_le by simp_all
    let ?r = "case (map_of result key, value) of
          (Some (Mapping r), Mapping u) \<Rightarrow> dict_set result key (Mapping (merge_settings r u))
        | _ \<Rightarrow> dict_set result key (deep_copy value)"
    have "depth (Mapping ?r) \<le> Suc m"
    proof (cases "\<exists>rm um. map_of result key = Some (Mapping rm) \<and> value = Mapping um")
      case True
      then obtain rm um where rm: "map_of result key = Some (Mapping rm)"
        and um: "value = Mapping um" by blast
      obtain m' where m': "m = Suc m'" using v um by (cases m) auto
      have "depth (Mapping rm) \<le> Suc m'" using depth_lookup [OF rm] r m' by simp
      moreover have "depth (Mapping um) \<le> Suc m'" using v um m' by simp
      ultimately have "depth (Mapping (merge_settings rm um)) \<le> m"
        using "3.IH"(1) [of "map_of result key" "value" "Mapping rm" rm um m'] rm um m' by simp
      from depth_dict_set [OF r this] show ?thesis using rm um by simp
    next
      case False
      then have "?r = dict_set result key value"
        by (auto simp: deep_copy_id split: option.split cval.split)
      then show ?thesis using depth_dict_set [OF r v] by simp
    qed
    then show "depth (Mapping (merge_loop result ((key, value) # rest))) \<le> Suc m"
      using "3.IH"(2) rest by simp
  qed
qed

lemma repr_in_mono: "repr_in S h v t \<Longrightarrow> S \<subseteq> T \<Longrightarrow> repr_in T h v t"
proof (induction rule: repr_in.induct)
  case (scalar s)
  show ?case by (rule repr_in.scalar)
next
  case (seq a xs ts)
  have "list_all2 (repr_in T h) xs ts"
    using seq.IH seq.prems by (auto elim!: list_all2_mono)
  then show ?case using seq.hyps seq.prems by (auto intro: repr_in.seq)
next
  case (mapping a kvs kts)
  have "list_all2 (repr_in T h) (map snd kvs) (map snd kts)"
    using mapping.IH mapping.prems by (auto elim!: list_all2_mono)
  then show ?case using mapping.hyps mapping.prems by (auto intro: repr_in.mapping)
qed

lemma repr_in_repr: "repr_in S h v t \<Longrightarrow> repr h v t"
  unfolding repr_def by (erule repr_in_mono) simp

lemma repr_in_move:
  assumes "repr_in S h v t" and "extends h h'" and "S \<subseteq> T"
  shows "repr_in T h' v t"
proof -
  have "repr_in S h' v t"
    using assms(1) by (rule repr_in_agree) (use assms(2) in \<open>auto simp: extends_iff\<close>)
  then show ?thesis using assms(3) by (rule repr_in_mono)
qed

lemma list_all2_move:
  assumes "list_all2 (repr_in S h) xs ts" and "extends h h'" and "S \<subseteq> T"
  shows "list_all2 (repr_in T h') xs ts"
  using assms(1) by (rule list_all2_mono) (rule repr_in_move [OF _ assms(2,3)])

lemma thread_repr:
  assumes copy: "\<And>h x t. t \<in> set ts \<Longrightarrow> repr h x t \<Longrightarrow>
      \<exists>h' y. f h x = Some (h', y) \<and> extends h h' \<and> repr_in {length h..<length h'} h' y t"
  shows "list_all2 (repr h) xs ts \<Longrightarrow>
      \<exists>h' ys. thread f h xs = Some (h', ys) \<and> extends h h' \<and>
        list_all2 (repr_in {length h..<length h'} h') ys ts"
  using copy
proof (induction xs ts arbitrary: h rule: list_induct2')
  case 1
  show ?case by (simp add: extends_refl)
next
  case (2 x xs)
  then show ?case by simp
next
  case (3 t ts)
  then show ?case by simp
next
  case (4 x xs t ts)
  from "4.prems"(1) have x: "repr h x t" and xs: "list_all2 (repr h) xs ts" by simp_all
  from "4.prems"(2) [OF _ x] obtain h1 y where f: "f h x = Some (h1, y)"
    and e1: "extends h h1" and y: "repr_in {length h..<length h1} h1 y t" by auto
  have xs1: "list_all2 (repr h1) xs ts"
    using xs by (rule list_all2_mono) (rule repr_extends [OF _ e1])
  have "\<exists>h' ys. thread f h1 xs = Some (h', ys) \<and> extends h1 h' \<and>
        list_all2 (repr_in {length h1..<length h'} h') ys ts"
    using xs1 "4.prems"(2) by (intro "4.IH") auto
  then obtain h2 ys where t: "thread f h1 xs = Some (h2, ys)" and e2: "extends h1 h2"
    and ys: "list_all2 (repr_in {length h1..<length h2} h2) ys ts" by blast
  have l: "length h \<le> length h1" "length h1 \<le> length h2"
    using e1 e2 by (auto simp: extends_iff)
  have y2: "repr_in {length h..<length h2} h2 y t"
    using y e2 by (rule repr_in_move) (use l in auto)
  have ys2: "list_all2 (repr_in {length h..<length h2} h2) ys ts"
    using ys extends_refl by (rule list_all2_move) (use l in auto)
  show ?case
    using f t extends_trans [OF e1 e2] y2 ys2 by simp
qed

lemma repr_ref_dict:
  "repr_in S h (PRef a) t \<Longrightarrow> a < length h \<Longrightarrow> h ! a = ODict kvs \<Longrightarrow> \<exists>kts. t = Mapping kts"
  by (erule repr_in.cases) auto

lemma repr_Mapping:
  "repr_in S h v (Mapping kts) \<Longrightarrow>
   \<exists>a kvs. v = PRef a \<and> a \<in> S \<and> a < length h \<and> h ! a = ODict kvs \<and> map fst kvs = map fst kts \<and>
     list_all2 (repr_in S h) (map snd kvs) (map snd kts)"
  by (erule repr_in.cases) auto

lemma repr_Seq:
  "repr_in S h v (Seq ts) \<Longrightarrow>
   \<exists>a xs. v = PRef a \<and> a \<in> S \<and> a < length h \<and> h ! a = OList xs \<and> list_all2 (repr_in S h) xs ts"
  by (erule repr_in.cases) auto

lemma repr_Scalar: "repr_in S h v (Scalar s) \<Longrightarrow> v = PScalar s"
  by (erule repr_in.cases) auto

lemma copy_dict_step:
  assumes children: "\<And>h x t. t \<in> set (map snd base) \<Longrightarrow> repr h x t \<Longrightarrow>
      \<exists>h' y. deep_copy_h n h x = Some (h', y) \<and> extends h h' \<and>
        repr_in {length h..<length h'} h' y t"
    and b: "repr h (PRef b) (Mapping base)"
  shows "\<exists>h1 r kvs. deep_copy_h (Suc n) h (PRef b) = Some (h1, PRef r) \<and> extends h h1 \<and>
      length h \<le> r \<and> r < length h1 \<and> h1 ! r = ODict kvs \<and> map fst kvs = map fst base \<and>
      list_all2 (repr_in ({length h..<length h1} - {r}) h1) (map snd kvs) (map snd base)"
proof -
  from b obtain bitems where bl: "b < length h" and hb: "h ! b = ODict bitems"
    and keys: "map fst bitems = map fst base"
    and vals: "list_all2 (repr h) (map snd bitems) (map snd base)"
    unfolding repr_def by (auto dest!: repr_Mapping)
  from thread_repr [where f = "deep_copy_h n", OF children vals]
  obtain h1 ys where t: "thread (deep_copy_h n) h (map snd bitems) = Some (h1, ys)"
    and e1: "extends h h1"
    and ys: "list_all2 (repr_in {length h..<length h1} h1) ys (map snd base)" by blast
  let ?ob = "ODict (zip (map fst bitems) ys)"
  let ?h' = "h1 @ [?ob]"
  have len: "length ys = length bitems"
    using ys keys by (metis length_map list_all2_lengthD)
  have l: "length h \<le> length h1" using e1 by (simp add: extends_iff)
  have run: "deep_copy_h (Suc n) h (PRef b) = Some (?h', PRef (length h1))"
    using bl hb t by simp
  have e: "extends h ?h'" by (rule extends_trans [OF e1 extends_append])
  have "length (map fst bitems) = length ys" using len by simp
  then have "map fst (zip (map fst bitems) ys) = map fst bitems" by (rule map_fst_zip)
  then have k: "map fst (zip (map fst bitems) ys) = map fst base" using keys by simp
  have s: "map snd (zip (map fst bitems) ys) = ys" using len by simp
  have "list_all2 (repr_in ({length h..<length ?h'} - {length h1}) ?h') ys (map snd base)"
    using ys extends_append by (rule list_all2_move) auto
  then show ?thesis using run e l k s by (intro exI [of _ ?h'] exI [of _ "length h1"]
        exI [of _ "zip (map fst bitems) ys"]) simp
qed

lemma copy_list_step:
  assumes children: "\<And>h x t. t \<in> set ts \<Longrightarrow> repr h x t \<Longrightarrow>
      \<exists>h' y. deep_copy_h n h x = Some (h', y) \<and> extends h h' \<and>
        repr_in {length h..<length h'} h' y t"
    and b: "repr h v (Seq ts)"
  shows "\<exists>h1 v'. deep_copy_h (Suc n) h v = Some (h1, v') \<and> extends h h1 \<and>
      repr_in {length h..<length h1} h1 v' (Seq ts)"
proof -
  from b obtain a xs where v: "v = PRef a" and al: "a < length h" and ha: "h ! a = OList xs"
    and vals: "list_all2 (repr h) xs ts"
    unfolding repr_def by (auto dest!: repr_Seq)
  from thread_repr [where f = "deep_copy_h n", OF children vals]
  obtain h1 ys where t: "thread (deep_copy_h n) h xs = Some (h1, ys)"
    and e1: "extends h h1"
    and ys: "list_all2 (repr_in {length h..<length h1} h1) ys ts" by blast
  let ?h' = "h1 @ [OList ys]"
  have l: "length h \<le> length h1" using e1 by (simp add: extends_iff)
  have run: "deep_copy_h (Suc n) h v = Some (?h', PRef (length h1))"
    using v al ha t by simp
  have e: "extends h ?h'" by (rule extends_trans [OF e1 extends_append])
  have "list_all2 (repr_in {length h..<length ?h'} ?h') ys ts"
    using ys extends_append by (rule list_all2_move) auto
  then have "repr_in {length h..<length ?h'} ?h' (PRef (length h1)) (Seq ts)"
    using l by (intro repr_in.seq [where xs = ys]) simp_all
  then show ?thesis using run e by blast
qed

lemma deep_copy_repr:
  "repr h v t \<Longrightarrow> depth t < n \<Longrightarrow>
   \<exists>h' v'. deep_copy_h n h v = Some (h', v') \<and> extends h h' \<and>
     repr_in {length h..<length h'} h' v' t"
proof (induction t arbitrary: n h v)
  case (Scalar s)
  then obtain n' where n: "n = Suc n'" by (cases n) auto
  have "v = PScalar s" using Scalar.prems(1) unfolding repr_def by (rule repr_Scalar)
  then show ?case using n by (auto simp: extends_refl intro: repr_in.scalar)
next
  case (Seq ts)
  then obtain n' where n: "n = Suc n'" by (cases n) auto
  have d: "\<forall>t \<in> set ts. depth t < n'"
    using Seq.prems(2) n depth_Seq_le [of ts "n' - 1"] by (cases n') auto
  show ?case
    unfolding n
  proof (rule copy_list_step [OF _ Seq.prems(1)])
    fix h x t assume "t \<in> set ts" "repr h x t"
    then show "\<exists>h' y. deep_copy_h n' h x = Some (h', y) \<and> extends h h' \<and>
        repr_in {length h..<length h'} h' y t"
      using Seq.IH d by blast
  qed
next
  case (Mapping kts)
  then obtain n' where n: "n = Suc n'" by (cases n) auto
  have d: "\<forall>kv \<in> set kts. depth (snd kv) < n'"
    using Mapping.prems(2) n depth_Mapping_le [of kts "n' - 1"] by (cases n') auto
  have "\<exists>h1 r kvs. deep_copy_h (Suc n') h v = Some (h1, PRef r) \<and> extends h h1 \<and>
      length h \<le> r \<and> r < length h1 \<and> h1 ! r = ODict kvs \<and> map fst kvs = map fst kts \<and>
      list_all2 (repr_in ({length h..<length h1} - {r}) h1) (map snd kvs) (map snd kts)"
  proof -
    obtain b where v: "v = PRef b"
      using Mapping.prems(1) unfolding repr_def by (auto dest!: repr_Mapping)
    show ?thesis
      unfolding v
    proof (rule copy_dict_step)
      show "repr h (PRef b) (Mapping kts)" using Mapping.prems(1) v by simp
    next
      fix h x t assume t: "t \<in> set (map snd kts)" and x: "repr h x t"
      from t obtain kv where kv: "kv \<in> set kts" "t = snd kv" by auto
      have "snd kv \<in> Basic_BNFs.snds kv" by (cases kv) simp
      then have "t \<in> Basic_BNFs.snds kv" using kv(2) by simp
      from Mapping.IH [OF kv(1) this x] d kv
      show "\<exists>h' y. deep_copy_h n' h x = Some (h', y) \<and> extends h h' \<and>
          repr_in {length h..<length h'} h' y t" by blast
    qed
  qed
  then obtain h1 r kvs where run: "deep_copy_h (Suc n') h v = Some (h1, PRef r)"
    and e: "extends h h1" and r: "length h \<le> r" "r < length h1" and at: "h1 ! r = ODict kvs"
    and keys: "map fst kvs = map fst kts"
    and vals: "list_all2 (repr_in ({length h..<length h1} - {r}) h1) (map snd kvs) (map snd kts)"
    by blast
  have "list_all2 (repr_in {length h..<length h1} h1) (map snd kvs) (map snd kts)"
    using vals extends_refl by (rule list_all2_move) auto
  then have "repr_in {length h..<length h1} h1 (PRef r) (Mapping kts)"
    using r at keys by (intro repr_in.mapping [where kvs = kvs]) simp_all
  then show ?case using run e n by blast
qed

lemma deep_copy_dict_repr:
  assumes "repr h (PRef b) (Mapping base)" and "depth (Mapping base) \<le> n"
  shows "\<exists>h1 r kvs. deep_copy_h (Suc n) h (PRef b) = Some (h1, PRef r) \<and> extends h h1 \<and>
      length h \<le> r \<and> r < length h1 \<and> h1 ! r = ODict kvs \<and> map fst kvs = map fst base \<and>
      list_all2 (repr_in ({length h..<length h1} - {r}) h1) (map snd kvs) (map snd base)"
proof (rule copy_dict_step [OF _ assms(1)])
  fix h x t assume t: "t \<in> set (map snd base)" and x: "repr h x t"
  obtain m where m: "depth (Mapping base) = Suc m" by simp
  from t have "depth t \<le> m" using depth_Mapping_le [of base m] m by auto
  then have "depth t < n" using m assms(2) by simp
  from deep_copy_repr [OF x this]
  show "\<exists>h' y. deep_copy_h n h x = Some (h', y) \<and> extends h h' \<and>
      repr_in {length h..<length h'} h' y t" .
qed

lemma map_of_rel:
  "map fst xs = map fst ys \<Longrightarrow> list_all2 R (map snd xs) (map snd ys) \<Longrightarrow>
   rel_option R (map_of xs k) (map_of ys k)"
proof (induction xs ys rule: list_induct2')
  case (4 x xs y ys)
  then show ?case by (cases x; cases y) auto
qed simp_all

lemma dict_set_rel:
  "map fst xs = map fst ys \<Longrightarrow> list_all2 R (map snd xs) (map snd ys) \<Longrightarrow> R v t \<Longrightarrow>
   map fst (dict_set xs k v) = map fst (dict_set ys k t) \<and>
   list_all2 R (map snd (dict_set xs k v)) (map snd (dict_set ys k t))"
proof (induction xs ys rule: list_induct2')
  case (4 x xs y ys)
  then show ?case by (cases x; cases y) auto
qed simp_all

lemma dict_at_not_None: "dict_at h a \<noteq> None \<longleftrightarrow> (\<exists>kvs. a < length h \<and> h ! a = ODict kvs)"
  by (auto simp: dict_at_def split: obj.splits)

lemma store_extends:
  "extends h0 h1 \<Longrightarrow> length h0 \<le> r \<Longrightarrow> extends h0 (h1[r := ob])"
  by (auto simp: extends_iff)

lemma merge_repr_both:
  shows "repr h (PRef b) (Mapping base) \<longrightarrow> repr h (PRef u) (Mapping update) \<longrightarrow>
         depth (Mapping base) + 2 \<le> n \<longrightarrow> depth (Mapping update) + 2 \<le> n \<longrightarrow>
         (\<exists>h' r. merge_h n h b u = Some (h', r) \<and>
            repr_in {length h..<length h'} h' (PRef r) (Mapping (merge_settings base update)))"
    and "extends h0 hc \<longrightarrow> length h0 \<le> r \<longrightarrow> r < length hc \<longrightarrow> hc ! r = ODict ritems \<longrightarrow>
         map fst ritems = map fst result \<longrightarrow>
         list_all2 (repr_in ({length h0..<length hc} - {r}) hc) (map snd ritems) (map snd result) \<longrightarrow>
         map fst uitems = map fst upd \<longrightarrow>
         list_all2 (repr h0) (map snd uitems) (map snd upd) \<longrightarrow>
         depth (Mapping result) + 1 \<le> m \<longrightarrow> depth (Mapping upd) + 1 \<le> m \<longrightarrow>
         (\<exists>h' ritems'. merge_loop_h (merge_h m) (deep_copy_h m) hc r uitems = Some h' \<and>
            extends h0 h' \<and> r < length h' \<and> h' ! r = ODict ritems' \<and>
            map fst ritems' = map fst (merge_loop result upd) \<and>
            list_all2 (repr_in ({length h0..<length h'} - {r}) h') (map snd ritems')
              (map snd (merge_loop result upd)))"
proof (induction base update and result upd arbitrary: h b u n and h0 hc r ritems uitems m
    rule: merge_settings_merge_loop.induct)
  case (1 base update)
  show ?case
  proof (intro impI)
    assume rb: "repr h (PRef b) (Mapping base)" and ru: "repr h (PRef u) (Mapping update)"
      and db: "depth (Mapping base) + 2 \<le> n" and du: "depth (Mapping update) + 2 \<le> n"
    obtain n' where n: "n = Suc n'" using db by (cases n) auto
    from rb obtain bitems where bl: "b < length h" and hb: "h ! b = ODict bitems"
      unfolding repr_def by (auto dest!: repr_Mapping)
    from ru obtain uitems where ul: "u < length h" and hu: "h ! u = ODict uitems"
      and ukeys: "map fst uitems = map fst update"
      and uvals: "list_all2 (repr h) (map snd uitems) (map snd update)"
      unfolding repr_def by (auto dest!: repr_Mapping)
    obtain n'' where n': "n' = Suc n''" using db n by (cases n') auto
    have "depth (Mapping base) \<le> n''" using db n n' by simp
    from deep_copy_dict_repr [OF rb this]
    obtain h1 r kvs where copy: "deep_copy_h n' h (PRef b) = Some (h1, PRef r)"
      and e1: "extends h h1" and r: "length h \<le> r" "r < length h1" and at: "h1 ! r = ODict kvs"
      and keys: "map fst kvs = map fst base"
      and vals: "list_all2 (repr_in ({length h..<length h1} - {r}) h1) (map snd kvs)
          (map snd base)"
      unfolding n' by blast
    have "\<exists>h' ritems'. merge_loop_h (merge_h n') (deep_copy_h n') h1 r uitems = Some h' \<and>
            extends h h' \<and> r < length h' \<and> h' ! r = ODict ritems' \<and>
            map fst ritems' = map fst (merge_loop (deep_copy_dict base) update) \<and>
            list_all2 (repr_in ({length h..<length h'} - {r}) h') (map snd ritems')
              (map snd (merge_loop (deep_copy_dict base) update))"
      using "1.IH" [of h h1 r kvs uitems n'] e1 r at keys vals ukeys uvals db du n
      by (simp add: deep_copy_items)
    then obtain h' ritems' where
      loop: "merge_loop_h (merge_h n') (deep_copy_h n') h1 r uitems = Some h'"
      and e: "extends h h'" and rl: "r < length h'" and at': "h' ! r = ODict ritems'"
      and keys': "map fst ritems' = map fst (merge_settings base update)"
      and vals': "list_all2 (repr_in ({length h..<length h'} - {r}) h') (map snd ritems')
              (map snd (merge_settings base update))"
      by (auto simp: merge_settings.simps)
    have "dict_at h b = Some bitems" using bl hb by (simp add: dict_at_Some)
    moreover have "dict_at h1 u = Some uitems"
      using ul hu e1 by (auto simp: dict_at_Some extends_iff)
    ultimately have run: "merge_h n h b u = Some (h', r)"
      using copy loop by (simp add: n)
    have "list_all2 (repr_in {length h..<length h'} h') (map snd ritems')
              (map snd (merge_settings base update))"
      using vals' extends_refl by (rule list_all2_move) auto
    then have "repr_in {length h..<length h'} h' (PRef r) (Mapping (merge_settings base update))"
      using r(1) rl at' keys' by (intro repr_in.mapping [where kvs = ritems']) simp_all
    then show "\<exists>h' r. merge_h n h b u = Some (h', r) \<and>
        repr_in {length h..<length h'} h' (PRef r) (Mapping (merge_settings base update))"
      using run by blast
  qed
next
  case (2 result)
  show ?case by auto
next
  case (3 result key "value" rest)
  show ?case
  proof (intro impI)
    assume e0: "extends h0 hc" and r0: "length h0 \<le> r" and rl: "r < length hc"
      and at: "hc ! r = ODict ritems" and keys: "map fst ritems = map fst result"
      and vals: "list_all2 (repr_in ({length h0..<length hc} - {r}) hc) (map snd ritems)
          (map snd result)"
      and ukeys: "map fst uitems = map fst ((key, value) # rest)"
      and uvals: "list_all2 (repr h0) (map snd uitems) (map snd ((key, value) # rest))"
      and dr: "depth (Mapping result) + 1 \<le> m"
      and du: "depth (Mapping ((key, value) # rest)) + 1 \<le> m"
    obtain m' where m: "m = Suc m'" using dr by (cases m) auto
    obtain pv urest where uitems: "uitems = (key, pv) # urest"
      using ukeys by (cases uitems) auto
    have pv0: "repr h0 pv value" and urest: "map fst urest = map fst rest"
      "list_all2 (repr h0) (map snd urest) (map snd rest)"
      using ukeys uvals uitems by simp_all
    have pv: "repr hc pv value" by (rule repr_extends [OF pv0 e0])
    have du': "depth (Mapping ((key, value) # rest)) \<le> m'" using du m by simp
    have m'pos: "0 < m'" using du' depth_Mapping_pos [of "(key, value) # rest"] by linarith
    then obtain k where k: "m' = Suc k" by (cases m') auto
    have all: "\<forall>kv \<in> set ((key, value) # rest). depth (snd kv) \<le> k"
      using du' unfolding k depth_Mapping_le .
    have dv: "depth value \<le> m' - 1" using all k by simp
    have "depth (Mapping rest) \<le> Suc k" unfolding depth_Mapping_le using all by simp
    then have drest: "depth (Mapping rest) + 1 \<le> m" using k m by simp
    have dres: "depth (Mapping result) \<le> Suc (m' - 1)" using dr m by simp
    let ?newresult = "case map_of result key of
          None \<Rightarrow> dict_set result key (deep_copy value)
        | Some (Mapping rm) \<Rightarrow>
            (case value of
               Mapping um \<Rightarrow> dict_set result key (Mapping (merge_settings rm um))
             | _ \<Rightarrow> dict_set result key (deep_copy value))
        | Some _ \<Rightarrow> dict_set result key (deep_copy value)"
    let ?sub = "case (map_of ritems key, pv) of
                (Some (PRef a), PRef b) \<Rightarrow>
                  (if dict_at hc a \<noteq> None \<and> dict_at hc b \<noteq> None
                   then (case merge_h m hc a b of
                           None \<Rightarrow> None
                         | Some (h1, x) \<Rightarrow> Some (h1, PRef x))
                   else deep_copy_h m hc pv)
              | _ \<Rightarrow> deep_copy_h m hc pv"
    have rel: "rel_option (repr_in ({length h0..<length hc} - {r}) hc)
        (map_of ritems key) (map_of result key)"
      by (rule map_of_rel [OF keys vals])
    have "\<exists>h1 v newtree. ?sub = Some (h1, v) \<and> extends hc h1 \<and>
        repr_in {length hc..<length h1} h1 v newtree \<and>
        ?newresult = dict_set result key newtree \<and> depth newtree \<le> m' - 1"
    proof (cases "\<exists>rt ut. map_of result key = Some (Mapping rt) \<and> value = Mapping ut")
      case True
      then obtain rt ut where rt: "map_of result key = Some (Mapping rt)"
        and ut: "value = Mapping ut" by blast
      from rel rt obtain pa where pa: "map_of ritems key = Some pa"
        and rpa: "repr_in ({length h0..<length hc} - {r}) hc pa (Mapping rt)"
        by (cases "map_of ritems key") auto
      from rpa obtain a akvs where a: "pa = PRef a" "a < length hc" "hc ! a = ODict akvs"
        by (auto dest!: repr_Mapping)
      from pv ut obtain b' bkvs where b': "pv = PRef b'" "b' < length hc" "hc ! b' = ODict bkvs"
        unfolding repr_def by (auto dest!: repr_Mapping)
      have da: "dict_at hc a \<noteq> None" "dict_at hc b' \<noteq> None"
        using a b' by (simp_all add: dict_at_Some)
      have ra: "repr hc (PRef a) (Mapping rt)" using rpa a(1) by (auto intro: repr_in_repr)
      have rb: "repr hc (PRef b') (Mapping ut)" using pv b'(1) ut by simp
      have d1: "depth (Mapping rt) + 2 \<le> m" using depth_lookup [OF rt] dr by simp
      have d2: "depth (Mapping ut) + 2 \<le> m" using dv ut m m'pos by simp
      from "3.IH"(1) [OF refl rt refl ut, of hc a b' m, rule_format, OF ra rb d1 d2]
      obtain h1 x where run: "merge_h m hc a b' = Some (h1, x)"
        and rx: "repr_in {length hc..<length h1} h1 (PRef x) (Mapping (merge_settings rt ut))"
        by blast
      from merge_frame [OF run] have e1: "extends hc h1" by simp
      obtain k' where k': "m' - 1 = Suc k'" using dv ut by (cases "m' - 1") auto
      have "depth (Mapping rt) \<le> Suc k'" using depth_lookup [OF rt] dres k' by simp
      moreover have "depth (Mapping ut) \<le> Suc k'" using dv ut k' by simp
      ultimately have "depth (Mapping (merge_settings rt ut)) \<le> m' - 1"
        using depth_merge_both(1) [of rt k' ut] k' by simp
      moreover have "?sub = Some (h1, PRef x)" using pa a(1) b'(1) da run by simp
      moreover have "?newresult = dict_set result key (Mapping (merge_settings rt ut))"
        using rt ut by simp
      ultimately show ?thesis using e1 rx by blast
    next
      case False
      have "depth value < m" using dv m m'pos by simp
      from deep_copy_repr [OF pv this]
      obtain h1 v where copy: "deep_copy_h m hc pv = Some (h1, v)" and e1: "extends hc h1"
        and rv: "repr_in {length hc..<length h1} h1 v value" by blast
      have "?sub = deep_copy_h m hc pv"
      proof (cases "\<exists>a b'. map_of ritems key = Some (PRef a) \<and> pv = PRef b' \<and>
          dict_at hc a \<noteq> None \<and> dict_at hc b' \<noteq> None")
        case True
        then obtain a b' where ab0: "map_of ritems key = Some (PRef a)" "pv = PRef b'"
          "dict_at hc a \<noteq> None" "dict_at hc b' \<noteq> None" by blast
        from ab0(3) obtain akvs where "a < length hc" "hc ! a = ODict akvs"
          unfolding dict_at_not_None by blast
        moreover from ab0(4) obtain bkvs where "b' < length hc" "hc ! b' = ODict bkvs"
          unfolding dict_at_not_None by blast
        ultimately have ab: "map_of ritems key = Some (PRef a)" "pv = PRef b'"
          "a < length hc" "hc ! a = ODict akvs" "b' < length hc" "hc ! b' = ODict bkvs"
          using ab0 by simp_all
        from rel ab(1) obtain ta where ta: "map_of result key = Some ta"
          and rta: "repr_in ({length h0..<length hc} - {r}) hc (PRef a) ta"
          by (cases "map_of result key") auto
        from repr_ref_dict [OF rta ab(3,4)] obtain rt where "ta = Mapping rt" by blast
        moreover from pv ab(2) have "repr_in UNIV hc (PRef b') value" by (simp add: repr_def)
        from repr_ref_dict [OF this ab(5,6)] obtain ut where "value = Mapping ut" by blast
        ultimately show ?thesis using False ta by simp
      next
        case False
        then show ?thesis by (auto split: option.splits pval.splits)
      qed
      moreover have "?newresult = dict_set result key value"
        using False by (auto simp: deep_copy_id split: option.split cval.split)
      ultimately show ?thesis using copy e1 rv dv by auto
    qed
    then obtain h1 v newtree where sub: "?sub = Some (h1, v)" and e1: "extends hc h1"
      and rv: "repr_in {length hc..<length h1} h1 v newtree"
      and nr: "?newresult = dict_set result key newtree" and dn: "depth newtree \<le> m' - 1"
      by blast
    let ?h2 = "h1[r := ODict (dict_set ritems key v)]"
    have l: "length h0 \<le> length hc" "length hc \<le> length h1"
      using e0 e1 by (auto simp: extends_iff)
    have at1: "dict_at h1 r = Some ritems"
      using at rl e1 by (auto simp: dict_at_Some extends_iff)
    have atc: "dict_at hc r = Some ritems" using at rl by (simp add: dict_at_Some)
    have e01: "extends h0 h1" by (rule extends_trans [OF e0 e1])
    have e02: "extends h0 ?h2" by (rule store_extends [OF e01 r0])
    have r2: "r < length ?h2" using rl l by simp
    have at2: "?h2 ! r = ODict (dict_set ritems key v)" using rl l by simp
    have old: "list_all2 (repr_in ({length h0..<length ?h2} - {r}) ?h2) (map snd ritems)
        (map snd result)"
      using vals
    proof (rule list_all2_mono)
      fix x t assume "repr_in ({length h0..<length hc} - {r}) hc x t"
      then have "repr_in ({length h0..<length hc} - {r}) ?h2 x t"
        by (rule repr_in_agree) (use e1 in \<open>auto simp: extends_iff\<close>)
      then show "repr_in ({length h0..<length ?h2} - {r}) ?h2 x t"
        by (rule repr_in_mono) (use l in auto)
    qed
    have new: "repr_in ({length h0..<length ?h2} - {r}) ?h2 v newtree"
    proof -
      have "repr_in {length hc..<length h1} ?h2 v newtree"
        using rv by (rule repr_in_agree) (use rl in auto)
      then show ?thesis by (rule repr_in_mono) (use l rl in auto)
    qed
    from dict_set_rel [OF keys old new]
    have keys2: "map fst (dict_set ritems key v) = map fst ?newresult"
      and vals2: "list_all2 (repr_in ({length h0..<length ?h2} - {r}) ?h2)
          (map snd (dict_set ritems key v)) (map snd ?newresult)"
      by (simp_all only: nr)
    have "depth (Mapping (dict_set result key newtree)) \<le> Suc (m' - 1)"
      by (rule depth_dict_set [OF dres dn])
    then have "depth (Mapping (dict_set result key newtree)) + 1 \<le> m" using m m'pos by simp
    then have dr2: "depth (Mapping ?newresult) + 1 \<le> m" by (simp only: nr)
    from "3.IH"(2) [of h0 ?h2 r "dict_set ritems key v" urest m, rule_format,
        OF e02 r0 r2 at2 keys2 vals2 urest(1) urest(2) dr2 drest]
    obtain h' ritems' where
      loop: "merge_loop_h (merge_h m) (deep_copy_h m) ?h2 r urest = Some h'"
      and fin: "extends h0 h'" "r < length h'" "h' ! r = ODict ritems'"
        "map fst ritems' = map fst (merge_loop ?newresult rest)"
        "list_all2 (repr_in ({length h0..<length h'} - {r}) h') (map snd ritems')
           (map snd (merge_loop ?newresult rest))"
      by blast
    have "merge_loop_h (merge_h m) (deep_copy_h m) hc r uitems = Some h'"
      unfolding uitems using atc sub at1 loop by simp
    then show "\<exists>h' ritems'. merge_loop_h (merge_h m) (deep_copy_h m) hc r uitems = Some h' \<and>
            extends h0 h' \<and> r < length h' \<and> h' ! r = ODict ritems' \<and>
            map fst ritems' = map fst (merge_loop result ((key, value) # rest)) \<and>
            list_all2 (repr_in ({length h0..<length h'} - {r}) h') (map snd ritems')
              (map snd (merge_loop result ((key, value) # rest)))"
      using fin by (intro exI [of _ h'] exI [of _ ritems']) simp
  qed
qed

lemma merge_repr:
  assumes "repr h (PRef b) (Mapping base)" and "repr h (PRef u) (Mapping update)"
    and "depth (Mapping base) + 2 \<le> n" and "depth (Mapping update) + 2 \<le> n"
  shows "\<exists>h' r. merge_h n h b u = Some (h', r) \<and>
           repr h' (PRef r) (Mapping (merge_settings base update))"
  using merge_repr_both(1) [of h b base u update n] assms by (auto intro: repr_in_repr)

lemma depth_merge:
  assumes "depth (Mapping base) + 2 \<le> n" and "depth (Mapping update) + 2 \<le> n"
  shows "depth (Mapping (merge_settings base update)) + 2 \<le> n"
proof -
  obtain m where m: "n = Suc (Suc (Suc m))"
    using assms(1) depth_Mapping_pos [of base] by (cases n; cases "n - 1"; cases "n - 2") auto
  have "depth (Mapping (merge_settings base update)) \<le> Suc m"
    using depth_merge_both(1) [of base m update] assms m by simp
  then show ?thesis using m by simp
qed

lemma merge_layers_repr:
  "repr h (PRef cur) (Mapping start) \<Longrightarrow>
   list_all2 (\<lambda>l t. repr h (PRef l) (Mapping t)) layers trees \<Longrightarrow>
   depth (Mapping start) + 2 \<le> n \<Longrightarrow> \<forall>t \<in> set trees. depth (Mapping t) + 2 \<le> n \<Longrightarrow>
   \<exists>h' r. merge_layers_h n h cur layers = Some (h', r) \<and>
     repr h' (PRef r) (Mapping (merge_layers start trees))"
proof (induction layers trees arbitrary: h cur start rule: list_induct2')
  case 1
  then show ?case by (simp add: merge_layers_def)
next
  case (2 l ls)
  then show ?case by simp
next
  case (3 t ts)
  then show ?case by simp
next
  case (4 l ls t ts)
  have l: "repr h (PRef l) (Mapping t)"
    and ls: "list_all2 (\<lambda>l t. repr h (PRef l) (Mapping t)) ls ts"
    using "4.prems"(2) by simp_all
  have dt: "depth (Mapping t) + 2 \<le> n" and dts: "\<forall>t \<in> set ts. depth (Mapping t) + 2 \<le> n"
    using "4.prems"(4) by simp_all
  from merge_repr [OF "4.prems"(1) l "4.prems"(3) dt]
  obtain h1 r1 where m: "merge_h n h cur l = Some (h1, r1)"
    and r1: "repr h1 (PRef r1) (Mapping (merge_settings start t))" by blast
  from merge_frame [OF m] have e: "extends h h1" by simp
  have ls1: "list_all2 (\<lambda>l t. repr h1 (PRef l) (Mapping t)) ls ts"
    using ls by (rule list_all2_mono) (rule repr_extends [OF _ e])
  from "4.IH" [OF r1 ls1 depth_merge [OF "4.prems"(3) dt] dts]
  show ?case using m by (simp add: merge_layers_def)
qed

lemma repr_shared_store:
  shows "repr shared_store (PRef 2) (Mapping store_tree_2)"
    and "repr shared_store (PRef 4) (Mapping store_tree_4)"
proof -
  note s = repr_in.scalar
  have 0: "repr_in UNIV shared_store (PRef 0) (Mapping [(''indentation'', Scalar (SInt 4))])"
    by (rule repr_in.mapping [where kvs = "[(''indentation'', PScalar (SInt 4))]"])
       (simp_all add: shared_store_def s)
  have 1: "repr_in UNIV shared_store (PRef 1) (Seq [Scalar (SStr ''x'')])"
    by (rule repr_in.seq [where xs = "[PScalar (SStr ''x'')]"])
       (simp_all add: shared_store_def s)
  have one: "repr_in UNIV shared_store (PRef (Suc 0)) (Seq [Scalar (SStr ''x'')])"
    using 1 by simp
  have 3: "repr_in UNIV shared_store (PRef 3) (Mapping [(''quotes'', Scalar (SStr ''single''))])"
    by (rule repr_in.mapping [where kvs = "[(''quotes'', PScalar (SStr ''single''))]"])
       (simp_all add: shared_store_def s)
  show "repr shared_store (PRef 2) (Mapping store_tree_2)"
    unfolding repr_def store_tree_2_def
    by (rule repr_in.mapping [where kvs = "[(''codeStyle'', PRef 0), (''tags'', PRef 1),
          (''requestLimit'', PScalar (SInt 25))]"])
       (simp_all add: 0 one s, simp_all add: shared_store_def)
  show "repr shared_store (PRef 4) (Mapping store_tree_4)"
    unfolding repr_def store_tree_4_def
    by (rule repr_in.mapping [where kvs = "[(''codeStyle'', PRef 3), (''shared'', PRef 0)]"])
       (simp_all add: 0 3 s, simp_all add: shared_store_def)
qed

section \<open>The claims about the merge\<close>

text \<open>
  C1 (merge precedence). For a base tree and an overlay (a dictionary, so without a
  repeated key) and every key \<open>k\<close>: the keys of the merge are those of either input; where
  both hold a mapping at \<open>k\<close> the result holds their merge; where only one side defines
  \<open>k\<close> the result holds the deep copy of its value, which equals the value; where both
  define \<open>k\<close> and one value is not a mapping, the result holds the overlay's value whole,
  a sequence included. For layers folded in order, the entry at \<open>k\<close> after the fold is
  the one that the layers following the last non-mapping value at \<open>k\<close> make of that
  value, whatever came before; if none of them defines \<open>k\<close>, it is that value.
\<close>

theorem merge_precedence:
  assumes "distinct (map fst overlay)"
  shows "(k \<in> set (map fst (merge_settings base overlay)) \<longleftrightarrow>
            k \<in> set (map fst base) \<or> k \<in> set (map fst overlay)) \<and>
         (map_of base k = Some (Mapping b) \<and> map_of overlay k = Some (Mapping u) \<longrightarrow>
            map_of (merge_settings base overlay) k = Some (Mapping (merge_settings b u))) \<and>
         (map_of base k = Some bv \<and> map_of overlay k = None \<longrightarrow>
            map_of (merge_settings base overlay) k = Some (deep_copy bv) \<and> deep_copy bv = bv) \<and>
         (map_of base k = None \<and> map_of overlay k = Some v \<longrightarrow>
            map_of (merge_settings base overlay) k = Some (deep_copy v) \<and> deep_copy v = v) \<and>
         (map_of base k = Some bv \<and> map_of overlay k = Some v \<and> (\<not> is_dict bv \<or> \<not> is_dict v) \<longrightarrow>
            map_of (merge_settings base overlay) k = Some v) \<and>
         (map_of base k = Some bv \<and> map_of overlay k = Some (Seq items) \<longrightarrow>
            map_of (merge_settings base overlay) k = Some (Seq items)) \<and>
         ((\<forall>l \<in> set (before @ overlay # after). distinct (map fst l)) \<and>
          map_of overlay k = Some v \<and> \<not> is_dict v \<longrightarrow>
            map_of (merge_layers start (before @ overlay # after)) k =
              map_of (merge_layers [(k, v)] after) k \<and>
            ((\<forall>l \<in> set after. map_of l k = None) \<longrightarrow>
               map_of (merge_layers start (before @ overlay # after)) k = Some v))"
proof -
  note look = lookup_merge [OF assms, of base k]
  have keys: "k \<in> set (map fst (merge_settings base overlay)) \<longleftrightarrow>
      k \<in> set (map fst base) \<or> k \<in> set (map fst overlay)"
    unfolding keys_set_merge [OF assms] by blast
  have both: "map_of (merge_settings base overlay) k = Some (Mapping (merge_settings b u))"
    if "map_of base k = Some (Mapping b)" "map_of overlay k = Some (Mapping u)"
    using that look by simp
  have only_base: "map_of (merge_settings base overlay) k = Some (deep_copy bv)"
    if "map_of base k = Some bv" "map_of overlay k = None"
    using that look by (simp add: deep_copy_id)
  have only_overlay: "map_of (merge_settings base overlay) k = Some (deep_copy v)"
    if "map_of base k = None" "map_of overlay k = Some v"
    using that look by (simp add: deep_copy_id merge_at_onto_not_dict)
  have wholesale: "map_of (merge_settings base overlay) k = Some v"
    if "map_of base k = Some bv" "map_of overlay k = Some v" "\<not> is_dict bv \<or> \<not> is_dict v"
  proof (cases "is_dict v")
    case False
    then show ?thesis using that look by (simp add: merge_at_not_dict)
  next
    case True
    then have "\<forall>m. map_of base k \<noteq> Some (Mapping m)" using that by auto
    then show ?thesis using that look by (simp add: merge_at_onto_not_dict)
  qed
  have seq: "map_of (merge_settings base overlay) k = Some (Seq items)"
    if "map_of overlay k = Some (Seq items)"
    using that look by (simp add: merge_at_not_dict)
  have fold: "map_of (merge_layers start (before @ overlay # after)) k =
        map_of (merge_layers [(k, v)] after) k \<and>
      ((\<forall>l \<in> set after. map_of l k = None) \<longrightarrow>
         map_of (merge_layers start (before @ overlay # after)) k = Some v)"
    if d: "\<forall>l \<in> set (before @ overlay # after). distinct (map fst l)"
      and v: "map_of overlay k = Some v" "\<not> is_dict v"
  proof -
    let ?xs = "map (\<lambda>l. map_of l k) after"
    have da: "\<forall>l \<in> set after. distinct (map fst l)" using d by simp
    have "map_of (merge_layers start (before @ overlay # after)) k =
        foldl merge_at (merge_at (foldl merge_at (map_of start k)
          (map (\<lambda>l. map_of l k) before)) (map_of overlay k)) ?xs"
      by (simp only: lookup_merge_layers [OF d]) simp
    also have "\<dots> = foldl merge_at (Some v) ?xs"
      using v by (simp add: merge_at_not_dict)
    finally have left: "map_of (merge_layers start (before @ overlay # after)) k =
        foldl merge_at (Some v) ?xs" .
    have right: "map_of (merge_layers [(k, v)] after) k = foldl merge_at (Some v) ?xs"
      by (simp only: lookup_merge_layers [OF da]) simp
    have "foldl merge_at x ?xs = x" if "\<forall>l \<in> set after. map_of l k = None" for x
      using that by (induction after) simp_all
    then show ?thesis using left right by simp
  qed
  from keys both only_base only_overlay wholesale seq fold show ?thesis
    by (simp only: deep_copy_id) blast
qed

theorem merge_precedence_witness:
  "distinct (map fst tree_b) \<and>
   map_of (merge_settings tree_a tree_b) ''codeStyle'' =
     Some (Mapping (merge_settings [(''indentation'', VInt 4), (''quotes'', VStr ''double'')]
                      [(''quotes'', VStr ''single''), (''lineLength'', VInt 88)])) \<and>
   map_of (merge_settings tree_a tree_b) ''requestLimit'' = Some (VInt 25) \<and>
   map_of (merge_settings tree_a tree_b) ''debugMode'' = Some (VBool True) \<and>
   map_of (merge_settings tree_a tree_b) ''security'' =
     Some (Mapping [(''sanitizeInputs'', VBool True)]) \<and>
   map_of (merge_settings tree_a tree_b) ''tags'' = Some (Seq [VStr ''z'']) \<and>
   map_of (merge_layers tree_c [tree_a, tree_b, tree_c]) ''tags'' = Some (Seq [VStr ''z''])"
proof -
  have d: "distinct (map fst tree_b)" by (simp add: tree_b_def)
  have da: "distinct (map fst tree_a)" by (simp add: tree_a_def)
  have dc: "distinct (map fst tree_c)" by (simp add: tree_c_def)
  have a1: "map_of tree_a ''codeStyle'' =
      Some (Mapping [(''indentation'', VInt 4), (''quotes'', VStr ''double'')])"
    and a2: "map_of tree_a ''requestLimit'' = Some (VInt 25)"
    and a3: "map_of tree_a ''debugMode'' = None"
    and a4: "map_of tree_a ''security'' = Some (VBool True)"
    and a5: "map_of tree_a ''tags'' = Some (Seq [VStr ''x'', VStr ''y''])"
    by (simp_all add: tree_a_def)
  have b1: "map_of tree_b ''codeStyle'' =
      Some (Mapping [(''quotes'', VStr ''single''), (''lineLength'', VInt 88)])"
    and b2: "map_of tree_b ''requestLimit'' = None"
    and b3: "map_of tree_b ''debugMode'' = Some (VBool True)"
    and b4: "map_of tree_b ''security'' = Some (Mapping [(''sanitizeInputs'', VBool True)])"
    and b5: "map_of tree_b ''tags'' = Some (Seq [VStr ''z''])"
    by (simp_all add: tree_b_def)
  have c5: "map_of tree_c ''tags'' = None" by (simp add: tree_c_def)
  note inst = merge_precedence [OF d, where base = tree_a and start = tree_c
      and before = "[tree_a]" and after = "[tree_c]" and items = "[VStr ''z'']"]
  have 1: "map_of (merge_settings tree_a tree_b) ''codeStyle'' =
     Some (Mapping (merge_settings [(''indentation'', VInt 4), (''quotes'', VStr ''double'')]
                      [(''quotes'', VStr ''single''), (''lineLength'', VInt 88)]))"
    using inst [where k = "''codeStyle''"
        and b = "[(''indentation'', VInt 4), (''quotes'', VStr ''double'')]"
        and u = "[(''quotes'', VStr ''single''), (''lineLength'', VInt 88)]"
        and bv = "VInt 0" and v = "VInt 0"] a1 b1
    by simp
  have 2: "map_of (merge_settings tree_a tree_b) ''requestLimit'' = Some (VInt 25)"
    using inst [where k = "''requestLimit''" and b = "[]" and u = "[]"
        and bv = "VInt 25" and v = "VInt 0"] a2 b2
    by simp
  have 3: "map_of (merge_settings tree_a tree_b) ''debugMode'' = Some (VBool True)"
    using inst [where k = "''debugMode''" and b = "[]" and u = "[]"
        and bv = "VInt 0" and v = "VBool True"] a3 b3
    by simp
  have 4: "map_of (merge_settings tree_a tree_b) ''security'' =
     Some (Mapping [(''sanitizeInputs'', VBool True)])"
    using inst [where k = "''security''" and b = "[]" and u = "[]"
        and bv = "VBool True" and v = "Mapping [(''sanitizeInputs'', VBool True)]"] a4 b4
    by simp
  have 5: "map_of (merge_settings tree_a tree_b) ''tags'' = Some (Seq [VStr ''z''])"
    using inst [where k = "''tags''" and b = "[]" and u = "[]"
        and bv = "Seq [VStr ''x'', VStr ''y'']" and v = "VInt 0"] a5 b5
    by simp
  have 6: "map_of (merge_layers tree_c [tree_a, tree_b, tree_c]) ''tags'' = Some (Seq [VStr ''z''])"
  proof -
    have prem: "(\<forall>l \<in> set ([tree_a] @ tree_b # [tree_c]). distinct (map fst l)) \<and>
        map_of tree_b ''tags'' = Some (Seq [VStr ''z'']) \<and> \<not> is_dict (Seq [VStr ''z''])"
      using b5 d da dc by simp
    have none: "\<forall>l \<in> set [tree_c]. map_of l ''tags'' = None" using c5 by simp
    from inst [where k = "''tags''" and b = "[]" and u = "[]"
        and bv = "VInt 0" and v = "Seq [VStr ''z'']"] prem none
    have "map_of (merge_layers tree_c ([tree_a] @ tree_b # [tree_c])) ''tags'' =
        Some (Seq [VStr ''z''])"
      by blast
    then show ?thesis by simp
  qed
  from d 1 2 3 4 5 6 show ?thesis by simp
qed

text \<open>
  C3 (idempotence of repeated application). For a starting tree and an ordered list of
  layers, all of them dictionaries throughout, folding the layers once more over the
  result of the fold gives the same tree; so merging one overlay twice is merging it once.
\<close>

theorem merge_layers_idempotent:
  assumes "wf_dict a" and "\<forall>l \<in> set layers. wf_dict l" and "wf_dict b"
  shows "merge_layers (merge_layers a layers) layers = merge_layers a layers \<and>
         merge_settings (merge_settings a b) b = merge_settings a b"
proof -
  have "merge_layers (merge_layers a [b]) [b] = merge_layers a [b]"
    using assms(1,3) by (intro merge_layers_again) simp_all
  then have "merge_settings (merge_settings a b) b = merge_settings a b"
    by (simp add: merge_layers_def)
  moreover have "merge_layers (merge_layers a layers) layers = merge_layers a layers"
    using assms(1,2) by (intro merge_layers_again)
  ultimately show ?thesis by simp
qed

theorem merge_layers_idempotent_witness:
  "wf_dict tree_a \<and> wf_dict tree_b \<and> wf_dict tree_c \<and>
   merge_layers (merge_layers tree_a [tree_b, tree_c, tree_a]) [tree_b, tree_c, tree_a] =
     merge_layers tree_a [tree_b, tree_c, tree_a] \<and>
   merge_settings (merge_settings tree_a tree_b) tree_b = merge_settings tree_a tree_b \<and>
   merge_settings tree_a tree_b \<noteq> tree_a"
proof -
  have a: "wf_dict tree_a" by (simp add: wf_dict_def tree_a_def)
  have b: "wf_dict tree_b" by (simp add: wf_dict_def tree_b_def)
  have c: "wf_dict tree_c" by (simp add: wf_dict_def tree_c_def)
  have ls: "\<forall>l \<in> set [tree_b, tree_c, tree_a]. wf_dict l" using a b c by simp
  have ne: "merge_settings tree_a tree_b \<noteq> tree_a" by code_simp
  from merge_layers_idempotent [OF a ls b] a b c ne show ?thesis by blast
qed

section \<open>The claims about the layers\<close>

text \<open>
  C4 (low-memory example), as the code has it. For the snapshot whose only content is
  \<open>memory.percent = 85\<close> (every other section absent, or present at its default), the
  layer of \<open>_adapt_for_performance\<close> sets \<open>contextWindow\<close> to 100000, but the scale layer
  is merged after it and its small-project branch sets 150000: the final
  \<open>cline_settings\<close> has \<open>contextWindow = 150000\<close> and \<open>maxResponseTokens = 4096\<close>.
\<close>

theorem low_memory_example:
  "final_setting (generate_adaptive_config empty_config memory_85) ''contextWindow''
     = Some (VInt 150000) \<and>
   final_setting (generate_adaptive_config empty_config memory_85) ''maxResponseTokens''
     = Some (VInt 4096) \<and>
   final_setting (generate_adaptive_config default_config memory_85_defaults) ''contextWindow''
     = Some (VInt 150000) \<and>
   final_setting (generate_adaptive_config default_config memory_85_defaults) ''maxResponseTokens''
     = Some (VInt 4096) \<and>
   lookup2 (adapt_for_performance memory_85) ''cline_settings'' ''contextWindow''
     = Some (VInt 100000) \<and>
   adapt_for_project_scale empty_config =
     Inr [(''cline_settings'', Mapping [(''requestLimit'', VInt 20),
                                         (''contextWindow'', VInt 150000)])]"
  by code_simp

text \<open>The claim as stated, with \<open>contextWindow = 100000\<close> in the final tree, fails.\<close>

theorem low_memory_example_counterexample:
  "final_setting (generate_adaptive_config empty_config memory_85) ''contextWindow''
     \<noteq> Some (VInt 100000)"
  by code_simp

text \<open>
  C5 (memory tiers), as the code has it. The two memory conditions are the branches of
  one \<open>if\<close>/\<open>elif\<close>. For every snapshot whose memory total exceeds \<open>16 * 2^30\<close> bytes:
  when \<open>memory.percent\<close> is at most 80 the layer of \<open>_adapt_for_performance\<close> carries the
  high-memory tier (\<open>contextWindow = 300000\<close>, \<open>maxCacheSize = 200\<close>, and without issues
  \<open>maxResponseTokens = 12288\<close>, \<open>enableCaching = true\<close>, no \<open>memoryOptimization\<close>); when
  \<open>memory.percent\<close> exceeds 80 it carries the low-memory tier instead
  (\<open>contextWindow = 100000\<close>, \<open>maxCacheSize = 50\<close>, and without issues
  \<open>maxResponseTokens = 4096\<close>, \<open>enableCaching = false\<close>, \<open>memoryOptimization = true\<close>).
\<close>

theorem memory_tier_if_elif:
  assumes "system_metrics pd = Some sm" and "memory sm = Some minfo"
    and "mem_total minfo = Some bytes" and "16 * 2 ^ 30 < bytes"
  shows "(get_default (mem_percent minfo) 0 \<le> 80 \<longrightarrow>
            lookup2 (adapt_for_performance pd) ''cline_settings'' ''contextWindow''
              = Some (VInt 300000) \<and>
            lookup2 (adapt_for_performance pd) ''cline_settings'' ''maxCacheSize''
              = Some (VInt 200) \<and>
            (get_default (performance_issues pd) [] = [] \<longrightarrow>
               lookup2 (adapt_for_performance pd) ''cline_settings'' ''maxResponseTokens''
                 = Some (VInt 12288) \<and>
               lookup2 (adapt_for_performance pd) ''cline_settings'' ''enableCaching''
                 = Some (VBool True) \<and>
               lookup2 (adapt_for_performance pd) ''cline_settings'' ''memoryOptimization''
                 = None)) \<and>
         (80 < get_default (mem_percent minfo) 0 \<longrightarrow>
            lookup2 (adapt_for_performance pd) ''cline_settings'' ''contextWindow''
              = Some (VInt 100000) \<and>
            lookup2 (adapt_for_performance pd) ''cline_settings'' ''maxCacheSize''
              = Some (VInt 50) \<and>
            (get_default (performance_issues pd) [] = [] \<longrightarrow>
               lookup2 (adapt_for_performance pd) ''cline_settings'' ''maxResponseTokens''
                 = Some (VInt 4096) \<and>
               lookup2 (adapt_for_performance pd) ''cline_settings'' ''enableCaching''
                 = Some (VBool False) \<and>
               lookup2 (adapt_for_performance pd) ''cline_settings'' ''memoryOptimization''
                 = Some (VBool True)))"
proof -
  let ?issues = "get_default (performance_issues pd) []"
  let ?s1 = "memory_tier minfo []"
  let ?s2 = "cpu_tier (get_default (cpu sm) empty_cpu) ?s1"
  have ne: "\<not> is_empty_metrics sm" using assms(2) by (simp add: is_empty_metrics_def)
  have shape: "adapt_for_performance pd =
      [(''cline_settings'', Mapping (foldl issue_step ?s2 ?issues))]"
    using adapt_for_performance_shape [OF assms(1) ne] assms(2) by simp
  have always: "lookup2 (adapt_for_performance pd) ''cline_settings'' k = map_of ?s1 k"
    if "k = ''contextWindow'' \<or> k = ''maxCacheSize''" for k
  proof -
    have "map_of (foldl issue_step ?s2 ?issues) k = map_of ?s2 k"
      using that by (intro map_of_issue_steps) auto
    also have "\<dots> = map_of ?s1 k"
      using that by (intro map_of_cpu_tier) auto
    finally show ?thesis by (simp add: shape lookup2_def)
  qed
  have quiet: "lookup2 (adapt_for_performance pd) ''cline_settings'' k = map_of ?s1 k"
    if "?issues = []"
      and "k = ''maxResponseTokens'' \<or> k = ''enableCaching'' \<or> k = ''memoryOptimization''" for k
  proof -
    have "map_of ?s2 k = map_of ?s1 k"
      using that(2) by (intro map_of_cpu_tier) auto
    then show ?thesis using that(1) by (simp add: shape lookup2_def)
  qed
  have high: "?s1 = high_memory" if "get_default (mem_percent minfo) 0 \<le> 80"
    using memory_tier_high [OF assms(3,4) that] .
  have low: "?s1 = low_memory" if "80 < get_default (mem_percent minfo) 0"
    using memory_tier_low [OF that] .
  show ?thesis
  proof (intro conjI impI)
    assume p: "get_default (mem_percent minfo) 0 \<le> 80"
    show "lookup2 (adapt_for_performance pd) ''cline_settings'' ''contextWindow''
        = Some (VInt 300000)"
      by (simp add: always high [OF p] high_memory_def)
    show "lookup2 (adapt_for_performance pd) ''cline_settings'' ''maxCacheSize''
        = Some (VInt 200)"
      by (simp add: always high [OF p] high_memory_def)
    assume q: "?issues = []"
    show "lookup2 (adapt_for_performance pd) ''cline_settings'' ''maxResponseTokens''
        = Some (VInt 12288)"
      by (simp add: quiet [OF q] high [OF p] high_memory_def)
    show "lookup2 (adapt_for_performance pd) ''cline_settings'' ''enableCaching''
        = Some (VBool True)"
      by (simp add: quiet [OF q] high [OF p] high_memory_def)
    show "lookup2 (adapt_for_performance pd) ''cline_settings'' ''memoryOptimization'' = None"
      by (simp add: quiet [OF q] high [OF p] high_memory_def)
  next
    assume p: "80 < get_default (mem_percent minfo) 0"
    show "lookup2 (adapt_for_performance pd) ''cline_settings'' ''contextWindow''
        = Some (VInt 100000)"
      by (simp add: always low [OF p] low_memory_def)
    show "lookup2 (adapt_for_performance pd) ''cline_settings'' ''maxCacheSize''
        = Some (VInt 50)"
      by (simp add: always low [OF p] low_memory_def)
    assume q: "?issues = []"
    show "lookup2 (adapt_for_performance pd) ''cline_settings'' ''maxResponseTokens''
        = Some (VInt 4096)"
      by (simp add: quiet [OF q] low [OF p] low_memory_def)
    show "lookup2 (adapt_for_performance pd) ''cline_settings'' ''enableCaching''
        = Some (VBool False)"
      by (simp add: quiet [OF q] low [OF p] low_memory_def)
    show "lookup2 (adapt_for_performance pd) ''cline_settings'' ''memoryOptimization''
        = Some (VBool True)"
      by (simp add: quiet [OF q] low [OF p] low_memory_def)
  qed
qed

theorem memory_tier_if_elif_witness:
  "system_metrics memory_40_of_32gib \<noteq> None \<and>
   (16 * 2 ^ 30 :: int) < 32 * 2 ^ 30 \<and>
   lookup2 (adapt_for_performance memory_40_of_32gib) ''cline_settings'' ''contextWindow''
     = Some (VInt 300000) \<and>
   lookup2 (adapt_for_performance memory_40_of_32gib) ''cline_settings'' ''maxResponseTokens''
     = Some (VInt 12288) \<and>
   lookup2 (adapt_for_performance memory_85_of_32gib) ''cline_settings'' ''contextWindow''
     = Some (VInt 100000) \<and>
   lookup2 (adapt_for_performance memory_85_of_32gib) ''cline_settings'' ''memoryOptimization''
     = Some (VBool True)"
proof -
  have big: "(16 * 2 ^ 30 :: int) < 32 * 2 ^ 30" by simp
  have a: "lookup2 (adapt_for_performance memory_40_of_32gib) ''cline_settings'' ''contextWindow''
       = Some (VInt 300000) \<and>
     lookup2 (adapt_for_performance memory_40_of_32gib) ''cline_settings'' ''maxResponseTokens''
       = Some (VInt 12288)"
    using memory_tier_if_elif [where pd = memory_40_of_32gib
        and sm = "\<lparr>memory = Some \<lparr>mem_percent = Some 40, mem_total = Some (32 * 2 ^ 30)\<rparr>,
           cpu = Some \<lparr>cpu_percent = Some 10, cpu_count = Some 16\<rparr>, other_metrics = True\<rparr>"
        and minfo = "\<lparr>mem_percent = Some 40, mem_total = Some (32 * 2 ^ 30)\<rparr>"
        and bytes = "32 * 2 ^ 30"]
    by (simp add: memory_40_of_32gib_def)
  have b: "lookup2 (adapt_for_performance memory_85_of_32gib) ''cline_settings'' ''contextWindow''
       = Some (VInt 100000) \<and>
     lookup2 (adapt_for_performance memory_85_of_32gib) ''cline_settings'' ''memoryOptimization''
       = Some (VBool True)"
    using memory_tier_if_elif [where pd = memory_85_of_32gib
        and sm = "\<lparr>memory = Some \<lparr>mem_percent = Some 85, mem_total = Some (32 * 2 ^ 30)\<rparr>,
           cpu = None, other_metrics = False\<rparr>"
        and minfo = "\<lparr>mem_percent = Some 85, mem_total = Some (32 * 2 ^ 30)\<rparr>"
        and bytes = "32 * 2 ^ 30"]
    by (simp add: memory_85_of_32gib_def)
  from big a b show ?thesis by (simp add: memory_40_of_32gib_def)
qed

text \<open>
  The claim as stated fails: with 32 GiB and memory at 85 percent the layer holds the
  low-memory window, not the high-memory one.
\<close>

theorem memory_tier_counterexample:
  "mem_total \<lparr>mem_percent = Some 85, mem_total = Some (32 * 2 ^ 30)\<rparr> = Some (32 * 2 ^ 30) \<and>
   (16 * 2 ^ 30 :: int) < 32 * 2 ^ 30 \<and>
   lookup2 (adapt_for_performance memory_85_of_32gib) ''cline_settings'' ''contextWindow''
     = Some (VInt 100000) \<and>
   lookup2 (adapt_for_performance memory_85_of_32gib) ''cline_settings'' ''contextWindow''
     \<noteq> Some (VInt 300000) \<and>
   lookup2 (adapt_for_performance memory_85_of_32gib) ''cline_settings'' ''maxResponseTokens''
     \<noteq> Some (VInt 12288)"
  by code_simp

text \<open>
  C6 (language of the project-type layer), as the code has it. The language-specific
  settings are those of the head of \<open>project_structure.languages\<close> alone: at every key
  the layer holds the web entry's value (for a web project), else the project type's,
  else the value of the head language's catalogue entry, and nothing of any later
  language. When the head, the project type and the web test all miss, the layer is
  empty, whatever languages follow the head.
\<close>

theorem language_from_head:
  assumes "project_structure cd = Some ps" and "languages ps = Some (l # ls)"
  shows "lookup2 (adapt_for_project_type cd) ''cline_settings'' k =
           or_else (if is_web_project ps then catalogue_entry ''web'' k else None)
             (or_else (catalogue_entry (get_default (project_type ps) ''unknown'') k)
                (catalogue_entry l k)) \<and>
         (map_of project_specific_settings l = None \<and>
          map_of project_specific_settings (get_default (project_type ps) ''unknown'') = None \<and>
          \<not> is_web_project ps \<longrightarrow>
            adapt_for_project_type cd = [(''cline_settings'', Mapping [])])"
proof -
  let ?ptype = "get_default (project_type ps) ''unknown''"
  let ?s1 = "case map_of project_specific_settings l of
               Some lang_settings \<Rightarrow> dict_update [] lang_settings | None \<Rightarrow> []"
  let ?s2 = "case map_of project_specific_settings ?ptype of
               Some type_settings \<Rightarrow> dict_update ?s1 type_settings | None \<Rightarrow> ?s1"
  let ?s3 = "if is_web_project ps then dict_update ?s2 web_settings else ?s2"
  have shape: "adapt_for_project_type cd = [(''cline_settings'', Mapping ?s3)]"
    using assms by (simp add: adapt_for_project_type_def Let_def web_entry
        cong: option.case_cong list.case_cong if_cong)
  have s1: "map_of ?s1 k = catalogue_entry l k"
    by (cases "map_of project_specific_settings l")
       (simp_all add: catalogue_entry_def map_of_catalogue_update [where d = "[]"]
          del: dict_update.simps, (case_tac "map_of a k"; simp))
  have s2: "map_of ?s2 k = or_else (catalogue_entry ?ptype k) (map_of ?s1 k)"
    by (cases "map_of project_specific_settings ?ptype")
       (simp_all add: catalogue_entry_def map_of_catalogue_update)
  have s3: "map_of ?s3 k =
      or_else (if is_web_project ps then catalogue_entry ''web'' k else None) (map_of ?s2 k)"
    using map_of_catalogue_update [OF web_entry, of ?s2 k]
    by (simp add: catalogue_entry_def web_entry)
  have first: "lookup2 (adapt_for_project_type cd) ''cline_settings'' k =
      or_else (if is_web_project ps then catalogue_entry ''web'' k else None)
        (or_else (catalogue_entry ?ptype k) (catalogue_entry l k))"
    by (simp only: shape lookup2_single s3 s2 s1)
  have second: "adapt_for_project_type cd = [(''cline_settings'', Mapping [])]"
    if "map_of project_specific_settings l = None"
      "map_of project_specific_settings ?ptype = None" "\<not> is_web_project ps"
    unfolding shape using that by simp
  from first second show ?thesis by blast
qed

theorem language_from_head_witness:
  "project_structure python_then_go \<noteq> None \<and>
   lookup2 (adapt_for_project_type python_then_go) ''cline_settings'' ''codeStyle'' =
     map_of python_settings ''codeStyle'' \<and>
   lookup2 (adapt_for_project_type python_then_go) ''cline_settings'' ''linting'' =
     map_of python_settings ''linting'' \<and>
   map_of project_specific_settings ''go'' = None \<and>
   adapt_for_project_type go_then_python = [(''cline_settings'', Mapping [])]"
proof -
  let ?pg = "\<lparr>project_type = Some ''unknown'', languages = Some [''python'', ''go''],
         frameworks = Some [], total_files = Some 10, file_counts = None\<rparr>"
  let ?gp = "\<lparr>project_type = Some ''unknown'', languages = Some [''go'', ''python''],
         frameworks = Some [], total_files = Some 10, file_counts = None\<rparr>"
  have pg: "project_structure python_then_go = Some ?pg" "languages ?pg = Some (''python'' # [''go''])"
    by (simp_all add: python_then_go_def)
  have gp: "project_structure go_then_python = Some ?gp" "languages ?gp = Some (''go'' # [''python''])"
    by (simp_all add: go_then_python_def)
  have web: "\<not> is_web_project ?pg" "\<not> is_web_project ?gp"
    by (simp_all add: is_web_project_def)
  have cat: "map_of project_specific_settings ''go'' = None"
    "map_of project_specific_settings ''unknown'' = None"
    "map_of project_specific_settings ''python'' = Some python_settings"
    by (simp_all add: project_specific_settings_def)
  have 1: "lookup2 (adapt_for_project_type python_then_go) ''cline_settings'' ''codeStyle'' =
     map_of python_settings ''codeStyle''"
    using language_from_head [OF pg, of "''codeStyle''"] web cat
    by (simp add: catalogue_entry_def)
  have 2: "lookup2 (adapt_for_project_type python_then_go) ''cline_settings'' ''linting'' =
     map_of python_settings ''linting''"
    using language_from_head [OF pg, of "''linting''"] web cat
    by (simp add: catalogue_entry_def)
  have 3: "adapt_for_project_type go_then_python = [(''cline_settings'', Mapping [])]"
    using language_from_head [OF gp, of "''codeStyle''"] web cat by simp
  from 1 2 3 cat show ?thesis by (simp add: python_then_go_def)
qed

text \<open>
  The claim as stated fails: with languages \<open>[go, python]\<close> the first catalogued language
  is \<open>python\<close>, and the layer holds none of its settings.
\<close>

theorem language_from_head_counterexample:
  "map_of project_specific_settings ''go'' = None \<and>
   map_of project_specific_settings ''python'' = Some python_settings \<and>
   map_of python_settings ''codeStyle'' \<noteq> None \<and>
   lookup2 (adapt_for_project_type go_then_python) ''cline_settings'' ''codeStyle'' = None \<and>
   adapt_for_project_type go_then_python = [(''cline_settings'', Mapping [])]"
  by code_simp

section \<open>The claim about the nested performance mapping\<close>

text \<open>
  C10 (the nested \<open>performance\<close> mapping is never changed). For every snapshot the
  generator returns a tree, made of the merged layers \<open>c5\<close> and the editor settings \<open>v\<close>
  that \<open>_generate_vscode_config\<close> computes from \<open>c5\<close>; the \<open>performance\<close> mapping under
  \<open>cline_settings\<close> is the default one, before and after the editor settings are
  added, so its \<open>memoryOptimization\<close> is \<open>false\<close>; and neither the editor settings nor
  the final tree has the key \<open>files.watcherExclude\<close>.
\<close>

theorem performance_mapping_untouched:
  "\<exists>c5 v. generate_adaptive_config cd pd = Inr (dict_update c5 v) \<and>
          generate_vscode_config c5 cd = Inr v \<and>
          lookup2 c5 ''cline_settings'' ''performance'' = Some (Mapping default_performance) \<and>
          map_of v ''files.watcherExclude'' = None \<and>
          final_setting (generate_adaptive_config cd pd) ''performance''
            = Some (Mapping default_performance) \<and>
          map_of default_performance ''memoryOptimization'' = Some (VBool False) \<and>
          final_key (generate_adaptive_config cd pd) ''files.watcherExclude'' = None"
proof -
  obtain c5 v where k: "keeps_defaults c5" and ks: "fst ` set v \<subseteq> set editor_keys"
    and gv: "generate_vscode_config c5 cd = Inr v"
    and ga: "generate_adaptive_config cd pd = Inr (dict_update c5 v)"
    using adaptive_config_shape by blast
  from k obtain cs m where c5: "c5 = [(''cline_settings'', Mapping cs)]"
    and p: "map_of cs ''performance'' = Some (Mapping default_performance)"
    unfolding keeps_defaults_iff by blast
  have nc: "''cline_settings'' \<notin> fst ` set v" and nw: "''files.watcherExclude'' \<notin> fst ` set v"
    using ks by (auto simp: editor_keys_def)
  have l5: "lookup2 c5 ''cline_settings'' ''performance'' = Some (Mapping default_performance)"
    by (simp only: c5 lookup2_single p)
  have vw: "map_of v ''files.watcherExclude'' = None"
    using nw by (simp add: map_of_eq_None_iff)
  have "map_of (dict_update c5 v) ''cline_settings'' = map_of c5 ''cline_settings''"
    by (rule map_of_dict_update_other [OF nc])
  then have "lookup2 (dict_update c5 v) ''cline_settings'' ''performance'' =
      lookup2 c5 ''cline_settings'' ''performance''"
    by (simp add: lookup2_def)
  then have fs: "final_setting (generate_adaptive_config cd pd) ''performance''
      = Some (Mapping default_performance)"
    by (simp add: ga final_setting_def l5)
  have "map_of (dict_update c5 v) ''files.watcherExclude'' = map_of c5 ''files.watcherExclude''"
    by (rule map_of_dict_update_other [OF nw])
  then have fk: "final_key (generate_adaptive_config cd pd) ''files.watcherExclude'' = None"
    by (simp add: ga final_key_def c5)
  have d: "map_of default_performance ''memoryOptimization'' = Some (VBool False)"
    by (simp add: default_performance_def)
  from ga gv l5 vw fs d fk show ?thesis by blast
qed

theorem performance_mapping_untouched_witness:
  "final_setting (generate_adaptive_config busy_config busy_performance) ''performance''
     = Some (Mapping default_performance) \<and>
   final_setting (generate_adaptive_config busy_config busy_performance) ''memoryOptimization''
     = Some (VBool True) \<and>
   final_key (generate_adaptive_config busy_config busy_performance) ''files.watcherExclude''
     = None"
proof -
  have "final_setting (generate_adaptive_config busy_config busy_performance)
      ''memoryOptimization'' = Some (VBool True)"
    by code_simp
  then show ?thesis
    using performance_mapping_untouched [of busy_config busy_performance] by blast
qed

section \<open>The claims about the rules\<close>

text \<open>
  C7 (deduplication keeps the first occurrence). For every list of rule texts, and
  whatever \<open>lower\<close> and \<open>strip\<close> compute: the entries of the result differ pairwise
  after lowercasing and trimming; the result is a subsequence of the input, so the
  survivors keep their order; every normalised text of the input survives; each
  survivor is the first entry of the input with its normalised text; removing
  duplicates once more changes nothing; and of two texts with the same normalised
  text, such as \<open>Use HTTPS\<close> and \<open>use https\<close> between blanks, the one that comes first
  is the one that stays.
\<close>

theorem remove_duplicates_keeps_first:
  "distinct (map (\<lambda>r. strip (lower r)) (remove_duplicates lower strip rules)) \<and>
   subseq (remove_duplicates lower strip rules) rules \<and>
   set (map (\<lambda>r. strip (lower r)) (remove_duplicates lower strip rules)) =
     set (map (\<lambda>r. strip (lower r)) rules) \<and>
   (\<forall>r \<in> set (remove_duplicates lower strip rules).
      find (\<lambda>x. strip (lower x) = strip (lower r)) rules = Some r) \<and>
   remove_duplicates lower strip (remove_duplicates lower strip rules) =
     remove_duplicates lower strip rules \<and>
   (strip (lower a) = strip (lower b) \<longrightarrow>
      remove_duplicates lower strip [a, b] = [a] \<and>
      remove_duplicates lower strip [b, a] = [b])"
proof -
  let ?out = "remove_duplicates lower strip rules"
  have d: "distinct (map (\<lambda>r. strip (lower r)) ?out)"
    unfolding remove_duplicates_def by (rule loop_distinct)
  have s: "subseq ?out rules"
    unfolding remove_duplicates_def by (rule loop_subseq)
  have n: "set (map (\<lambda>r. strip (lower r)) ?out) = set (map (\<lambda>r. strip (lower r)) rules)"
    unfolding remove_duplicates_def by (simp only: loop_norms) simp
  have f: "\<forall>r \<in> set ?out. find (\<lambda>x. strip (lower x) = strip (lower r)) rules = Some r"
    unfolding remove_duplicates_def using loop_first by blast
  have i: "remove_duplicates lower strip ?out = ?out"
    using loop_fixed [where lower = lower and strip = strip and rules = ?out and seen = "{}"] d
    by (simp add: remove_duplicates_def)
  have e: "remove_duplicates lower strip [a, b] = [a] \<and> remove_duplicates lower strip [b, a] = [b]"
    if "strip (lower a) = strip (lower b)"
    using that by (simp add: remove_duplicates_def loop_Cons)
  from d s n f i e show ?thesis by blast
qed

theorem remove_duplicates_keeps_first_witness:
  "ascii_strip (ascii_lower ''Use HTTPS'') = ascii_strip (ascii_lower '' use https '') \<and>
   remove_duplicates ascii_lower ascii_strip [''Use HTTPS'', '' use https ''] = [''Use HTTPS''] \<and>
   remove_duplicates ascii_lower ascii_strip ['' use https '', ''Use HTTPS''] = ['' use https ''] \<and>
   remove_duplicates ascii_lower ascii_strip
     [''Write tests'', ''Use HTTPS'', ''WRITE TESTS '', '' use https '', ''Log errors'']
     = [''Write tests'', ''Use HTTPS'', ''Log errors''] \<and>
   find (\<lambda>x. ascii_strip (ascii_lower x) = ascii_strip (ascii_lower ''Use HTTPS''))
     [''Write tests'', ''Use HTTPS'', ''WRITE TESTS '', '' use https '', ''Log errors'']
     = Some ''Use HTTPS''"
proof -
  let ?rules = "[''Write tests'', ''Use HTTPS'', ''WRITE TESTS '', '' use https '', ''Log errors'']"
  have same: "ascii_strip (ascii_lower ''Use HTTPS'') = ascii_strip (ascii_lower '' use https '')"
    by code_simp
  have out: "remove_duplicates ascii_lower ascii_strip ?rules =
      [''Write tests'', ''Use HTTPS'', ''Log errors'']"
    by code_simp
  note inst = remove_duplicates_keeps_first [where lower = ascii_lower and strip = ascii_strip
      and a = "''Use HTTPS''" and b = "'' use https ''" and rules = ?rules]
  have pair: "remove_duplicates ascii_lower ascii_strip [''Use HTTPS'', '' use https ''] =
        [''Use HTTPS''] \<and>
      remove_duplicates ascii_lower ascii_strip ['' use https '', ''Use HTTPS''] =
        ['' use https '']"
    using inst same by blast
  have "''Use HTTPS'' \<in> set (remove_duplicates ascii_lower ascii_strip ?rules)"
    by (simp only: out) simp
  then have first:
    "find (\<lambda>x. ascii_strip (ascii_lower x) = ascii_strip (ascii_lower ''Use HTTPS'')) ?rules
       = Some ''Use HTTPS''"
    using inst by blast
  from same pair out first show ?thesis by blast
qed



text \<open>
  C9 (missing sections), where the code departs from it. With \<open>project_structure\<close>
  absent, or present without a \<open>project_type\<close>, \<open>_format_rules_file\<close> reads \<open>project_info.get('project_type')\<close>, finds \<open>None\<close>,
  which differs from \<open>'unknown'\<close>, and then reads \<open>project_info['project_type']\<close>:
  \<open>generate_improved_rules\<close> raises \<open>KeyError\<close>, whatever the catalogues, the string
  functions, the time and the performance data are. With the section present and its
  type \<open>'unknown'\<close> the same call returns a text, and on the same empty snapshot
  \<open>generate_adaptive_config\<close>, which reads the type with the default \<open>'unknown'\<close>,
  returns a tree.
\<close>

theorem missing_project_structure_raises:
  "generate_improved_rules self lower strip now empty_config pd = Inl (KeyError ''project_type'') \<and>
   generate_improved_rules self lower strip now (cd\<lparr>project_structure := None\<rparr>) pd
     = Inl (KeyError ''project_type'') \<and>
   generate_improved_rules self lower strip now
     (cd\<lparr>project_structure := Some (ps\<lparr>project_type := None\<rparr>)\<rparr>) pd
     = Inl (KeyError ''project_type'') \<and>
   \<not> isl (generate_improved_rules self lower strip now default_config pd) \<and>
   \<not> isl (generate_adaptive_config empty_config empty_performance)"
proof -
  have a: "format_rules_file lower now rules empty_config = Inl (KeyError ''project_type'')"
    for rules
    by (simp add: format_rules_file_def empty_config_def empty_project_def)
  have b: "format_rules_file lower now rules (cd\<lparr>project_structure := None\<rparr>)
      = Inl (KeyError ''project_type'')" for rules
    by (simp add: format_rules_file_def empty_project_def)
  have c: "format_rules_file lower now rules
      (cd\<lparr>project_structure := Some (ps\<lparr>project_type := None\<rparr>)\<rparr>)
      = Inl (KeyError ''project_type'')" for rules
    by (simp add: format_rules_file_def)
  have d: "\<not> isl (format_rules_file lower now rules default_config)" for rules
    by (simp add: format_rules_file_def default_config_def Let_def)
  have e: "\<not> isl (generate_adaptive_config empty_config empty_performance)"
    using adaptive_config_returns [of empty_config empty_performance] by auto
  from a b c d e show ?thesis by (simp add: generate_improved_rules_def Let_def)
qed

section \<open>The claim about mutation and aliasing\<close>

text \<open>
  C2 (non-mutation). Whenever \<open>_merge_settings\<close> returns, on any store and for any two
  addresses: every object that existed before the call is in the store unchanged, so
  every value stands for the same tree after the call as before it; the result is at
  a new address, and no object that existed before can be reached from it: the
  returned tree is built of new objects only. The same holds for the fold of a list of
  layers over a starting tree, the result being new as soon as one layer is merged.
  And the call does return, with fuel beyond the depth of the inputs, whenever the two
  addresses hold dictionaries that stand for trees, shared sub-objects or not; the result
  then stands for the merge of the two trees, and that of the fold for the fold.
\<close>

theorem merge_leaves_inputs_alone:
  "(merge_h n h base update = Some (h', r) \<longrightarrow>
      take (length h) h' = h \<and> (\<forall>v t. repr h v t \<longrightarrow> repr h' v t) \<and>
      length h \<le> r \<and> reach h' r \<inter> {..<length h} = {}) \<and>
   (merge_layers_h n h base layers = Some (h', r) \<longrightarrow>
      take (length h) h' = h \<and> (\<forall>v t. repr h v t \<longrightarrow> repr h' v t) \<and>
      (layers \<noteq> [] \<longrightarrow> length h \<le> r \<and> reach h' r \<inter> {..<length h} = {})) \<and>
   (repr h (PRef base) (Mapping tb) \<and> repr h (PRef update) (Mapping tu) \<and>
    depth (Mapping tb) + 2 \<le> n \<and> depth (Mapping tu) + 2 \<le> n \<longrightarrow>
      (\<exists>h2 r2. merge_h n h base update = Some (h2, r2) \<and>
         repr h2 (PRef r2) (Mapping (merge_settings tb tu)))) \<and>
   (repr h (PRef base) (Mapping tb) \<and>
    list_all2 (\<lambda>l t. repr h (PRef l) (Mapping t)) layers trees \<and>
    depth (Mapping tb) + 2 \<le> n \<and> (\<forall>t \<in> set trees. depth (Mapping t) + 2 \<le> n) \<longrightarrow>
      (\<exists>h2 r2. merge_layers_h n h base layers = Some (h2, r2) \<and>
         repr h2 (PRef r2) (Mapping (merge_layers tb trees))))"
proof (intro conjI impI)
  assume m: "merge_h n h base update = Some (h', r)"
  from merge_frame [OF m] have e: "extends h h'" and f: "fresh_region h h'"
    and r: "length h \<le> r" by simp_all
  show "take (length h) h' = h" using e by (simp add: extends_def)
  show "\<forall>v t. repr h v t \<longrightarrow> repr h' v t" using repr_extends [OF _ e] by blast
  show "length h \<le> r" by (rule r)
  show "reach h' r \<inter> {..<length h} = {}" by (rule reach_fresh [OF f r])
next
  assume m: "merge_layers_h n h base layers = Some (h', r)"
  from merge_layers_frame [OF m] have e: "extends h h'"
    and f: "layers \<noteq> [] \<longrightarrow> length h \<le> r \<and> reach h' r \<inter> {..<length h} = {}" by simp_all
  show "take (length h) h' = h" using e by (simp add: extends_def)
  show "\<forall>v t. repr h v t \<longrightarrow> repr h' v t" using repr_extends [OF _ e] by blast
  show "length h \<le> r" if "layers \<noteq> []" using f that by simp
  show "reach h' r \<inter> {..<length h} = {}" if "layers \<noteq> []" using f that by simp
next
  assume "repr h (PRef base) (Mapping tb) \<and> repr h (PRef update) (Mapping tu) \<and>
    depth (Mapping tb) + 2 \<le> n \<and> depth (Mapping tu) + 2 \<le> n"
  then show "\<exists>h2 r2. merge_h n h base update = Some (h2, r2) \<and>
      repr h2 (PRef r2) (Mapping (merge_settings tb tu))"
    using merge_repr by blast
next
  assume "repr h (PRef base) (Mapping tb) \<and>
    list_all2 (\<lambda>l t. repr h (PRef l) (Mapping t)) layers trees \<and>
    depth (Mapping tb) + 2 \<le> n \<and> (\<forall>t \<in> set trees. depth (Mapping t) + 2 \<le> n)"
  then show "\<exists>h2 r2. merge_layers_h n h base layers = Some (h2, r2) \<and>
      repr h2 (PRef r2) (Mapping (merge_layers tb trees))"
    using merge_layers_repr by blast
qed

theorem merge_leaves_inputs_alone_witness:
  "merge_h 5 shared_store 2 4 = Some (merged_store, 7) \<and>
   take (length shared_store) merged_store = shared_store \<and>
   length shared_store \<le> 7 \<and>
   reach merged_store 7 \<inter> {..<length shared_store} = {} \<and>
   merged_store ! 7 =
     ODict [(''codeStyle'', PRef 8), (''tags'', PRef 6),
            (''requestLimit'', PScalar (SInt 25)), (''shared'', PRef 9)] \<and>
   repr shared_store (PRef 2) (Mapping store_tree_2) \<and>
   repr shared_store (PRef 4) (Mapping store_tree_4) \<and>
   repr merged_store (PRef 2) (Mapping store_tree_2) \<and>
   repr merged_store (PRef 4) (Mapping store_tree_4) \<and>
   repr merged_store (PRef 7) (Mapping (merge_settings store_tree_2 store_tree_4))"
proof -
  have run: "merge_h 5 shared_store 2 4 = Some (merged_store, 7)"
    by code_simp
  have obj: "merged_store ! 7 =
     ODict [(''codeStyle'', PRef 8), (''tags'', PRef 6),
            (''requestLimit'', PScalar (SInt 25)), (''shared'', PRef 9)]"
    by code_simp
  have d: "depth (Mapping store_tree_2) + 2 \<le> 5" "depth (Mapping store_tree_4) + 2 \<le> 5"
    by (simp_all add: store_tree_2_def store_tree_4_def)
  note inst = merge_leaves_inputs_alone [where n = 5 and h = shared_store and base = 2
      and update = 4 and h' = merged_store and r = 7 and tb = store_tree_2
      and tu = store_tree_4 and layers = "[]" and trees = "[]"]
  have frame: "take (length shared_store) merged_store = shared_store"
    "length shared_store \<le> 7" "reach merged_store 7 \<inter> {..<length shared_store} = {}"
    "repr merged_store (PRef 2) (Mapping store_tree_2)"
    "repr merged_store (PRef 4) (Mapping store_tree_4)"
    using inst run repr_shared_store by blast+
  have "\<exists>h2 r2. merge_h 5 shared_store 2 4 = Some (h2, r2) \<and>
      repr h2 (PRef r2) (Mapping (merge_settings store_tree_2 store_tree_4))"
    using inst repr_shared_store d by blast
  then have "repr merged_store (PRef 7) (Mapping (merge_settings store_tree_2 store_tree_4))"
    using run by simp
  with run obj frame repr_shared_store show ?thesis by blast
qed

end
